theory Spec2Isabelle
  imports Main
begin

section \<open>JSON texts as the JavaScript runtime reads and writes them\<close>

text \<open>
  \<^verbatim>\<open>events.ts\<close> encodes an event with \<^verbatim>\<open>JSON.stringify\<close> and decodes a stored
  value with \<^verbatim>\<open>JSON.parse\<close>. Both belong to the JavaScript runtime, so they are
  modelled here after ECMA-262 (\<^verbatim>\<open>QuoteJSONString\<close>, \<^verbatim>\<open>Number::toString\<close>,
  \<^verbatim>\<open>CreateDataProperty\<close>, the JSON grammar of ECMA-404).

  A value is \<^verbatim>\<open>null\<close>, a boolean, a number, a string, an array or an object. A number
  \<open>JNum m e\<close> is the decimal \<open>m \<times> 10\<^sup>e\<close> with \<open>m\<close> not divisible by ten (and
  \<open>JNum 0 0\<close> for zero): the rounding of IEEE doubles is outside this model. A string
  is a list of code units below 256. An object is the list of its own properties in
  the order the engine enumerates them.
\<close>

datatype json =
    JNull
  | JBool bool
  | JNum int int
  | JStr string
  | JArr "json list"
  | JObj "(string \<times> json) list"

datatype error = StoreUnavailable | SyntaxError | TypeError

abbreviation dquote :: char where
  "dquote \<equiv> CHR 0x22"

abbreviation bslash :: char where
  "bslash \<equiv> CHR 0x5C"

subsection \<open>JSON.stringify\<close>

definition is_digit :: "char \<Rightarrow> bool" where
  "is_digit c = (c \<in> set ''0123456789'')"

definition digit_value :: "char \<Rightarrow> int" where
  "digit_value c = of_char c - 48"

definition digits_value :: "string \<Rightarrow> int" where
  "digits_value ds = foldl (\<lambda>a c. 10 * a + digit_value c) 0 ds"

definition digit_char :: "int \<Rightarrow> char" where
  "digit_char d = char_of (48 + d)"

function digits :: "int \<Rightarrow> string" where
  "digits n = (if n < 10 then [digit_char n] else digits (n div 10) @ [digit_char (n mod 10)])"
  by pat_completeness auto

termination
  by (relation "measure nat") auto

declare digits.simps [simp del]

text \<open>
  \<^verbatim>\<open>Number::toString\<close>. A positive decimal with digit string \<open>ds\<close> of length \<open>k\<close>
  and decimal point position \<open>n = k + e\<close> is written with plain digits up to 21
  places, as a fraction down to \<open>10\<^sup>-\<^sup>6\<close>, in exponent notation otherwise.
\<close>

definition decimal_notation :: "int \<Rightarrow> int \<Rightarrow> string" where
  "decimal_notation m e =
     (let ds = digits m; k = int (length ds); n = k + e in
      if k \<le> n \<and> n \<le> 21 then ds @ replicate (nat (n - k)) (CHR ''0'')
      else if 0 < n \<and> n \<le> 21 then take (nat n) ds @ ''.'' @ drop (nat n) ds
      else if - 6 < n \<and> n \<le> 0 then ''0.'' @ replicate (nat (- n)) (CHR ''0'') @ ds
      else (if k = 1 then ds else take 1 ds @ ''.'' @ drop 1 ds) @ ''e''
           @ (if 0 \<le> n - 1 then ''+'' else ''-'') @ digits \<bar>n - 1\<bar>)"

definition Number_toString :: "int \<Rightarrow> int \<Rightarrow> string" where
  "Number_toString m e =
     (if m = 0 then ''0''
      else (if m < 0 then ''-'' else []) @ decimal_notation \<bar>m\<bar> e)"

definition hex_char :: "nat \<Rightarrow> char" where
  "hex_char d = (if d < 10 then char_of (48 + d) else char_of (87 + d))"

definition quote_char :: "char \<Rightarrow> string" where
  "quote_char c =
     (if c = dquote then [bslash, dquote]
      else if c = bslash then [bslash, bslash]
      else if c = CHR 0x08 then [bslash, CHR ''b'']
      else if c = CHR 0x0C then [bslash, CHR ''f'']
      else if c = CHR 0x0A then [bslash, CHR ''n'']
      else if c = CHR 0x0D then [bslash, CHR ''r'']
      else if c = CHR 0x09 then [bslash, CHR ''t'']
      else if (of_char c :: nat) < 32
        then [bslash, CHR ''u'', CHR ''0'', CHR ''0'',
              hex_char (of_char c div 16), hex_char (of_char c mod 16)]
      else [c])"

definition QuoteJSONString :: "string \<Rightarrow> string" where
  "QuoteJSONString s = dquote # concat (map quote_char s) @ [dquote]"

fun join_commas :: "string list \<Rightarrow> string" where
  "join_commas [] = []"
| "join_commas [x] = x"
| "join_commas (x # y # ys) = x @ '','' @ join_commas (y # ys)"

fun JSON_stringify :: "json \<Rightarrow> string" where
  "JSON_stringify JNull = ''null''"
| "JSON_stringify (JBool b) = (if b then ''true'' else ''false'')"
| "JSON_stringify (JNum m e) = Number_toString m e"
| "JSON_stringify (JStr s) = QuoteJSONString s"
| "JSON_stringify (JArr vs) = ''['' @ join_commas (map JSON_stringify vs) @ '']''"
| "JSON_stringify (JObj ms) =
     ''{'' @ join_commas (map (\<lambda>kv. QuoteJSONString (fst kv) @ '':'' @ JSON_stringify (snd kv)) ms)
     @ ''}''"

subsection \<open>JSON.parse: the lexer\<close>

text \<open>
  The lexer reads what \<^verbatim>\<open>JSON.stringify\<close> writes for the values of this model, and
  on those texts it agrees with the runtime. Two kinds of text lie outside the
  model, and on them the lexer is not the runtime's: a \<^verbatim>\<open>\u\<close> escape above
  \<^verbatim>\<open>00FF\<close> is read modulo 256, there being no code unit for it, and a number is
  kept as the exact decimal it denotes, where the runtime rounds to the nearest
  double (and to an infinity beyond the range). The properties of the receive path
  on arbitrary stored strings are therefore stated for any function in the place
  of \<^verbatim>\<open>JSON.parse\<close>; the lexer is used where a text written by \<^verbatim>\<open>JSON.stringify\<close> is
  read back, and on concrete texts without such escapes or numbers.
\<close>

datatype token =
    TLBrace | TRBrace | TLBracket | TRBracket | TComma | TColon
  | TStr string | TNum int int | TTrue | TFalse | TNull

text \<open>The decimal denoted by the digits \<open>ds\<close> scaled by \<open>10\<^sup>e\<close>, trailing zeros moved
  into the exponent.\<close>

definition decimal :: "string \<Rightarrow> int \<Rightarrow> int \<times> int" where
  "decimal ds e =
     (let z = length (takeWhile (\<lambda>c. c = CHR ''0'') (rev ds));
          m = digits_value (take (length ds - z) ds)
      in if m = 0 then (0, 0) else (m, e + int z))"

definition lex_integer :: "string \<Rightarrow> (string \<times> string) option" where
  "lex_integer cs =
     (case cs of
        [] \<Rightarrow> None
      | d # r \<Rightarrow>
          if d = CHR ''0'' then Some (''0'', r)
          else if is_digit d then Some (d # takeWhile is_digit r, dropWhile is_digit r)
          else None)"

definition lex_fraction :: "string \<Rightarrow> string \<times> string" where
  "lex_fraction cs =
     (case cs of
        [] \<Rightarrow> ([], cs)
      | d # r \<Rightarrow>
          if d = CHR ''.'' \<and> takeWhile is_digit r \<noteq> []
          then (takeWhile is_digit r, dropWhile is_digit r)
          else ([], cs))"

definition lex_sign :: "string \<Rightarrow> bool \<times> string" where
  "lex_sign cs =
     (case cs of
        [] \<Rightarrow> (False, cs)
      | s # r \<Rightarrow>
          if s = CHR ''-'' then (True, r)
          else if s = CHR ''+'' then (False, r)
          else (False, cs))"

definition lex_exponent :: "string \<Rightarrow> int \<times> string" where
  "lex_exponent cs =
     (case cs of
        [] \<Rightarrow> (0, cs)
      | x # r \<Rightarrow>
          if x = CHR ''e'' \<or> x = CHR ''E'' then
            (let (neg, r1) = lex_sign r; ds = takeWhile is_digit r1
             in if ds = [] then (0, cs)
                else (if neg then - digits_value ds else digits_value ds,
                      dropWhile is_digit r1))
          else (0, cs))"

definition lex_minus :: "string \<Rightarrow> bool \<times> string" where
  "lex_minus cs =
     (case cs of
        [] \<Rightarrow> (False, cs)
      | c # r \<Rightarrow> if c = CHR ''-'' then (True, r) else (False, cs))"

definition lex_number :: "string \<Rightarrow> ((int \<times> int) \<times> string) option" where
  "lex_number cs =
     (let (neg, cs1) = lex_minus cs
      in case lex_integer cs1 of
           None \<Rightarrow> None
         | Some (ip, cs2) \<Rightarrow>
             (let (fp, cs3) = lex_fraction cs2;
                  (ex, cs4) = lex_exponent cs3;
                  (m, e) = decimal (ip @ fp) (ex - int (length fp))
              in Some ((if neg then - m else m, e), cs4)))"

definition hex_value :: "char \<Rightarrow> int option" where
  "hex_value c =
     (if is_digit c then Some (of_char c - 48)
      else if c \<in> set ''abcdef'' then Some (of_char c - 87)
      else if c \<in> set ''ABCDEF'' then Some (of_char c - 55)
      else None)"

definition hex4 :: "char \<Rightarrow> char \<Rightarrow> char \<Rightarrow> char \<Rightarrow> int option" where
  "hex4 a b c d =
     (case (hex_value a, hex_value b, hex_value c, hex_value d) of
        (Some w, Some x, Some y, Some z) \<Rightarrow> Some (((w * 16 + x) * 16 + y) * 16 + z)
      | _ \<Rightarrow> None)"

definition unescape :: "char \<Rightarrow> char option" where
  "unescape c =
     (if c = dquote then Some dquote
      else if c = bslash then Some bslash
      else if c = CHR ''/'' then Some (CHR ''/'')
      else if c = CHR ''b'' then Some (CHR 0x08)
      else if c = CHR ''f'' then Some (CHR 0x0C)
      else if c = CHR ''n'' then Some (CHR 0x0A)
      else if c = CHR ''r'' then Some (CHR 0x0D)
      else if c = CHR ''t'' then Some (CHR 0x09)
      else None)"

definition consume :: "char \<Rightarrow> (string \<times> string) option \<Rightarrow> (string \<times> string) option" where
  "consume c r = map_option (\<lambda>(s, rest). (c # s, rest)) r"

text \<open>The characters of a string literal after its opening quote: the decoded
  string and the text after the closing quote.\<close>

fun lex_string :: "string \<Rightarrow> (string \<times> string) option" where
  "lex_string [] = None"
| "lex_string (c # cs) =
     (if c = dquote then Some ([], cs)
      else if c = bslash then
        (case cs of
           [] \<Rightarrow> None
         | x # r \<Rightarrow>
             if x = CHR ''u'' then
               (case r of
                  h1 # h2 # h3 # h4 # r' \<Rightarrow>
                    (case hex4 h1 h2 h3 h4 of
                       None \<Rightarrow> None
                     | Some n \<Rightarrow> consume (char_of n) (lex_string r'))
                | _ \<Rightarrow> None)
             else
               (case unescape x of
                  None \<Rightarrow> None
                | Some u \<Rightarrow> consume u (lex_string r)))
      else if (of_char c :: nat) < 32 then None
      else consume c (lex_string cs))"

lemma lex_string_shorter: "lex_string cs = Some (s, r) \<Longrightarrow> length r < length cs"
proof (induction cs arbitrary: s r rule: lex_string.induct)
  case 1
  then show ?case by simp
next
  case (2 c cs)
  then show ?case
    by (auto simp: consume_def split: if_splits list.splits option.splits) fastforce+
qed

lemma lex_integer_shorter: "lex_integer cs = Some (ip, r) \<Longrightarrow> length r < length cs"
  by (auto simp: lex_integer_def length_dropWhile_le le_imp_less_Suc
           split: list.splits if_splits)

lemma lex_fraction_shorter: "lex_fraction cs = (fp, r) \<Longrightarrow> length r \<le> length cs"
  by (auto simp: lex_fraction_def length_dropWhile_le le_SucI split: list.splits if_splits)

lemma lex_sign_shorter: "lex_sign cs = (b, r) \<Longrightarrow> length r \<le> length cs"
  by (auto simp: lex_sign_def split: list.splits if_splits)

lemma lex_minus_shorter: "lex_minus cs = (b, r) \<Longrightarrow> length r \<le> length cs"
  by (auto simp: lex_minus_def split: list.splits if_splits)

lemma lex_exponent_shorter: "lex_exponent cs = (ex, r) \<Longrightarrow> length r \<le> length cs"
proof (cases cs)
  case Nil
  then show "lex_exponent cs = (ex, r) \<Longrightarrow> ?thesis" by (simp add: lex_exponent_def)
next
  case (Cons x xs)
  assume a: "lex_exponent cs = (ex, r)"
  obtain b r1 where s: "lex_sign xs = (b, r1)" by (cases "lex_sign xs")
  have "length (dropWhile is_digit r1) \<le> length r1" by (rule length_dropWhile_le)
  with lex_sign_shorter [OF s] have "length (dropWhile is_digit r1) \<le> Suc (length xs)" by simp
  with a Cons s show ?thesis
    by (auto simp: lex_exponent_def Let_def split: if_splits)
qed

lemma lex_number_shorter: "lex_number cs = Some (v, r) \<Longrightarrow> length r < length cs"
proof -
  assume a: "lex_number cs = Some (v, r)"
  obtain neg cs1 where m: "lex_minus cs = (neg, cs1)" by (cases "lex_minus cs")
  from a m obtain ip cs2 where i: "lex_integer cs1 = Some (ip, cs2)"
    by (auto simp: lex_number_def split: option.splits)
  obtain fp cs3 where f: "lex_fraction cs2 = (fp, cs3)" by (cases "lex_fraction cs2")
  obtain ex cs4 where x: "lex_exponent cs3 = (ex, cs4)" by (cases "lex_exponent cs3")
  from a m i f x have "r = cs4"
    by (auto simp: lex_number_def split: prod.splits)
  with lex_minus_shorter [OF m] lex_integer_shorter [OF i] lex_fraction_shorter [OF f]
    lex_exponent_shorter [OF x]
  show ?thesis by simp
qed

definition is_space :: "char \<Rightarrow> bool" where
  "is_space c = (c = CHR '' '' \<or> c = CHR 0x09 \<or> c = CHR 0x0A \<or> c = CHR 0x0D)"

definition punctuation :: "char \<Rightarrow> token option" where
  "punctuation c =
     (if c = CHR ''{'' then Some TLBrace
      else if c = CHR ''}'' then Some TRBrace
      else if c = CHR ''['' then Some TLBracket
      else if c = CHR '']'' then Some TRBracket
      else if c = CHR '','' then Some TComma
      else if c = CHR '':'' then Some TColon
      else None)"

text \<open>\<^verbatim>\<open>String.prototype.startsWith\<close>: whether \<open>p\<close> is a prefix of \<open>s\<close>.\<close>

fun startsWith :: "string \<Rightarrow> string \<Rightarrow> bool" where
  "startsWith s [] = True"
| "startsWith [] (p # ps) = False"
| "startsWith (c # cs) (p # ps) = (c = p \<and> startsWith cs ps)"

function lex :: "string \<Rightarrow> token list option" where
  "lex [] = Some []"
| "lex (c # cs) =
     (if is_space c then lex cs
      else
        (case punctuation c of
           Some t \<Rightarrow> map_option (Cons t) (lex cs)
         | None \<Rightarrow>
             if c = dquote then
               (case lex_string cs of
                  None \<Rightarrow> None
                | Some (s, r) \<Rightarrow> map_option (Cons (TStr s)) (lex r))
             else if c = CHR ''-'' \<or> is_digit c then
               (case lex_number (c # cs) of
                  None \<Rightarrow> None
                | Some ((m, e), r) \<Rightarrow> map_option (Cons (TNum m e)) (lex r))
             else if startsWith (c # cs) ''true'' then map_option (Cons TTrue) (lex (drop 3 cs))
             else if startsWith (c # cs) ''false'' then map_option (Cons TFalse) (lex (drop 4 cs))
             else if startsWith (c # cs) ''null'' then map_option (Cons TNull) (lex (drop 3 cs))
             else None))"
  by pat_completeness auto

termination
  by (relation "measure length")
     (auto dest: lex_string_shorter lex_number_shorter)

declare lex.simps [simp del]

subsection \<open>JSON.parse: the parser\<close>

text \<open>
  \<^verbatim>\<open>CreateDataProperty\<close> on the object being built: a repeated key keeps its place
  and takes the later value; a new array index (a canonical decimal below
  \<open>2\<^sup>3\<^sup>2 - 1\<close>) is enumerated among the other indices in ascending order, before
  every other key; any other new key comes last.
\<close>

definition is_array_index :: "string \<Rightarrow> bool" where
  "is_array_index k =
     (k \<noteq> [] \<and> list_all is_digit k \<and> (k = ''0'' \<or> \<not> startsWith k ''0'')
      \<and> digits_value k < 4294967295)"

fun insert_index :: "string \<Rightarrow> json \<Rightarrow> (string \<times> json) list \<Rightarrow> (string \<times> json) list" where
  "insert_index k v [] = [(k, v)]"
| "insert_index k v (p # ps) =
     (if is_array_index (fst p) \<and> digits_value (fst p) < digits_value k
      then p # insert_index k v ps
      else (k, v) # p # ps)"

fun replace_value :: "string \<Rightarrow> json \<Rightarrow> (string \<times> json) list \<Rightarrow> (string \<times> json) list" where
  "replace_value k v [] = []"
| "replace_value k v (p # ps) =
     (if fst p = k then (k, v) # ps else p # replace_value k v ps)"

definition CreateDataProperty ::
  "(string \<times> json) list \<Rightarrow> string \<Rightarrow> json \<Rightarrow> (string \<times> json) list" where
  "CreateDataProperty ms k v =
     (if k \<in> fst ` set ms then replace_value k v ms
      else if is_array_index k then insert_index k v ms
      else ms @ [(k, v)])"

text \<open>The parser runs over the tokens with an explicit stack of the arrays and
  objects that are still open.\<close>

datatype frame = InArr "json list" | InObj "(string \<times> json) list" string

datatype pstate =
    AwaitValue "frame list"
  | AwaitFirstElem "frame list"
  | AwaitFirstKey "frame list"
  | AwaitKey "(string \<times> json) list" "frame list"
  | AwaitColon "(string \<times> json) list" string "frame list"
  | AfterElem "json list" "frame list"
  | AfterMember "(string \<times> json) list" "frame list"
  | Done json

fun complete :: "json \<Rightarrow> frame list \<Rightarrow> pstate" where
  "complete v [] = Done v"
| "complete v (InArr acc # st) = AfterElem (v # acc) st"
| "complete v (InObj ms k # st) = AfterMember (CreateDataProperty ms k v) st"

fun begin_value :: "token \<Rightarrow> frame list \<Rightarrow> pstate option" where
  "begin_value TNull st = Some (complete JNull st)"
| "begin_value TTrue st = Some (complete (JBool True) st)"
| "begin_value TFalse st = Some (complete (JBool False) st)"
| "begin_value (TNum m e) st = Some (complete (JNum m e) st)"
| "begin_value (TStr s) st = Some (complete (JStr s) st)"
| "begin_value TLBracket st = Some (AwaitFirstElem st)"
| "begin_value TLBrace st = Some (AwaitFirstKey st)"
| "begin_value TRBracket st = None"
| "begin_value TRBrace st = None"
| "begin_value TComma st = None"
| "begin_value TColon st = None"

fun step :: "pstate \<Rightarrow> token \<Rightarrow> pstate option" where
  "step (AwaitValue st) t = begin_value t st"
| "step (AwaitFirstElem st) t =
     (if t = TRBracket then Some (complete (JArr []) st) else begin_value t (InArr [] # st))"
| "step (AwaitFirstKey st) t =
     (case t of
        TRBrace \<Rightarrow> Some (complete (JObj []) st)
      | TStr k \<Rightarrow> Some (AwaitColon [] k st)
      | _ \<Rightarrow> None)"
| "step (AwaitKey ms st) t = (case t of TStr k \<Rightarrow> Some (AwaitColon ms k st) | _ \<Rightarrow> None)"
| "step (AwaitColon ms k st) t =
     (case t of TColon \<Rightarrow> Some (AwaitValue (InObj ms k # st)) | _ \<Rightarrow> None)"
| "step (AfterElem acc st) t =
     (case t of
        TComma \<Rightarrow> Some (AwaitValue (InArr acc # st))
      | TRBracket \<Rightarrow> Some (complete (JArr (rev acc)) st)
      | _ \<Rightarrow> None)"
| "step (AfterMember ms st) t =
     (case t of
        TComma \<Rightarrow> Some (AwaitKey ms st)
      | TRBrace \<Rightarrow> Some (complete (JObj ms) st)
      | _ \<Rightarrow> None)"
| "step (Done v) t = None"

fun parse_tokens :: "pstate \<Rightarrow> token list \<Rightarrow> error + json" where
  "parse_tokens s [] = (case s of Done v \<Rightarrow> Inr v | _ \<Rightarrow> Inl SyntaxError)"
| "parse_tokens s (t # ts) =
     (case step s t of None \<Rightarrow> Inl SyntaxError | Some s' \<Rightarrow> parse_tokens s' ts)"

definition JSON_parse :: "string \<Rightarrow> error + json" where
  "JSON_parse text =
     (case lex text of None \<Rightarrow> Inl SyntaxError | Some ts \<Rightarrow> parse_tokens (AwaitValue []) ts)"

section \<open>The event bus of events.ts\<close>

subsection \<open>Data\<close>

text \<open>\<^verbatim>\<open>IEventPayload\<close>: the event name and its payload, a
  \<^verbatim>\<open>Record<string, unknown>\<close> given by its own properties.\<close>

record IEventPayload =
  name :: string
  payload :: "(string \<times> json) list"

text \<open>The JavaScript object \<^verbatim>\<open>{name, payload}\<close> that \<^verbatim>\<open>JSON.stringify\<close> receives.\<close>

definition envelope :: "IEventPayload \<Rightarrow> json" where
  "envelope event = JObj [(''name'', JStr (name event)), (''payload'', JObj (payload event))]"

definition EVENT_KEY_PREFIX :: string where
  "EVENT_KEY_PREFIX = ''window.events.''"

datatype level = Debug | Info

text \<open>
  A subscriber of \<^verbatim>\<open>events().event\<close>: its identity and whether its callback
  throws when it is called.
\<close>

datatype listener = Listener (ident: nat) (throws: bool)

text \<open>
  What one process does, in the order it does it: a line written with \<^verbatim>\<open>logger\<close>,
  a call of \<^verbatim>\<open>secrets.get\<close> or \<^verbatim>\<open>secrets.store\<close>, a call of
  \<^verbatim>\<open>eventEmitter.fire\<close> (a dispatch), a subscriber called with a value, an error
  of a subscriber reported by the dispatcher. The bus never looks into a decoded
  value, so the effects are written for values of any type \<open>'v\<close>.
\<close>

datatype 'v effect =
    Log level string
  | SecretsGet string
  | SecretsStore string string
  | Fire 'v
  | Call nat 'v
  | ListenerFailure nat

text \<open>An \<^verbatim>\<open>EventsSingleton\<close> object: the subscribers of its \<^verbatim>\<open>eventEmitter\<close> in
  registration order.\<close>

record EventsSingleton =
  eventEmitter :: "listener list"

text \<open>
  One process (one editor window) and the store it shares with the others:
  \<^item> \<open>secrets\<close>, the values of the secret store, and \<open>unavailable\<close>, whether the store
    rejects the next operations;
  \<^item> \<open>notifications\<close>, the keys of the change events raised for this process and not
    yet delivered to it;
  \<^item> \<open>onDidChange\<close>, the handlers registered with \<^verbatim>\<open>secrets.onDidChange\<close>, each
    the reference of the \<^verbatim>\<open>EventsSingleton\<close> whose constructor registered it;
  \<^item> \<open>objects\<close>, the \<^verbatim>\<open>EventsSingleton\<close> objects allocated so far, a reference being
    an index in this list;
  \<^item> \<open>instance_ref\<close>, the static field \<^verbatim>\<open>EventsSingleton.instance\<close>;
  \<^item> \<open>trace\<close>, the effects so far.
\<close>

record 'v world =
  secrets :: "string \<rightharpoonup> string"
  unavailable :: bool
  notifications :: "string list"
  onDidChange :: "nat list"
  objects :: "EventsSingleton list"
  instance_ref :: "nat option"
  trace :: "'v effect list"

definition emit :: "'v effect list \<Rightarrow> 'v world \<Rightarrow> 'v world" where
  "emit es w = w\<lparr>trace := trace w @ es\<rparr>"

subsection \<open>The collaborators: secret store and event emitter\<close>

text \<open>
  Modelled from the spec: the Store Adapter of section 4.1 (the host's
  \<^verbatim>\<open>SecretStorage\<close>, reached through \<^verbatim>\<open>storage().context.secrets\<close>). \<^verbatim>\<open>get\<close>
  returns the value or absent and may fail with \<^verbatim>\<open>StoreUnavailable\<close>; \<^verbatim>\<open>set\<close>
  writes one key atomically, may fail with \<^verbatim>\<open>StoreUnavailable\<close>, and raises one change
  event carrying only the key, also in the process that wrote.
\<close>

definition secrets_get :: "string \<Rightarrow> 'v world \<Rightarrow> (error + string option) \<times> 'v world" where
  "secrets_get key w =
     (if unavailable w then (Inl StoreUnavailable, emit [SecretsGet key] w)
      else (Inr (secrets w key), emit [SecretsGet key] w))"

definition secrets_store :: "string \<Rightarrow> string \<Rightarrow> 'v world \<Rightarrow> (error + unit) \<times> 'v world" where
  "secrets_store key v w =
     (if unavailable w then (Inl StoreUnavailable, emit [SecretsStore key v] w)
      else (Inr (),
            emit [SecretsStore key v]
              (w\<lparr>secrets := (secrets w)(key \<mapsto> v),
                 notifications := notifications w @ [key]\<rparr>)))"

text \<open>A write by another process sharing the store: the value changes and this
  process is notified of the key.\<close>

definition remote_store :: "string \<Rightarrow> string \<Rightarrow> 'v world \<Rightarrow> 'v world" where
  "remote_store key v w =
     w\<lparr>secrets := (secrets w)(key \<mapsto> v), notifications := notifications w @ [key]\<rparr>"

text \<open>
  Modelled from the spec: the Local Dispatcher of section 4.5 (the host's
  \<^verbatim>\<open>vscode.EventEmitter\<close>, whose code is not in the repository). On dispatch it
  invokes each callback in registration order; a callback that raises an error is
  isolated: the error is logged and the remaining callbacks are still invoked.
\<close>

fun invoke_all :: "listener list \<Rightarrow> 'v \<Rightarrow> 'v effect list" where
  "invoke_all [] v = []"
| "invoke_all (l # ls) v =
     Call (ident l) v # (if throws l then [ListenerFailure (ident l)] else []) @ invoke_all ls v"

definition listeners :: "nat \<Rightarrow> 'v world \<Rightarrow> listener list" where
  "listeners this w =
     (if this < length (objects w) then eventEmitter (objects w ! this) else [])"

definition eventEmitter_fire :: "nat \<Rightarrow> 'v \<Rightarrow> 'v world \<Rightarrow> 'v world" where
  "eventEmitter_fire this v w = emit (Fire v # invoke_all (listeners this w) v) w"

subsection \<open>EventsSingleton\<close>

text \<open>
  The handler that the constructor registers with \<^verbatim>\<open>secrets.onDidChange\<close>
  (events.ts, lines 36 to 45), for the object \<open>this\<close> and the key of the change event.
  \<^verbatim>\<open>JSON.parse\<close> belongs to the runtime and is a parameter: \<open>parse\<close> gives, for a
  text, the error thrown or the value returned. The result of the handler is how
  the promise of the \<^verbatim>\<open>async\<close> arrow settles: \<open>Inr ()\<close> when it resolves, \<open>Inl e\<close>
  when it rejects with \<open>e\<close> (nothing in the handler catches an error). The value
  read is the one the store holds when the notification is processed;
  \<^verbatim>\<open>if (payload)\<close> is false for an absent value and for the empty string.
\<close>

definition on_change_with ::
  "(string \<Rightarrow> error + 'v) \<Rightarrow> nat \<Rightarrow> string \<Rightarrow> 'v world \<Rightarrow> (error + unit) \<times> 'v world" where
  "on_change_with parse this key w =
     (if startsWith key EVENT_KEY_PREFIX then
        (let w1 = emit [Log Debug (''Event emitted: '' @ key)] w in
         case secrets_get key w1 of
           (Inl e, w2) \<Rightarrow> (Inl e, w2)
         | (Inr stored, w2) \<Rightarrow>
             (case stored of
                None \<Rightarrow> (Inr (), w2)
              | Some text \<Rightarrow>
                  if text = [] then (Inr (), w2)
                  else
                    (let w3 = emit [Log Debug (''Event payload: '' @ text)] w2 in
                     case parse text of
                       Inl e \<Rightarrow> (Inl e, w3)
                     | Inr v \<Rightarrow> (Inr (), eventEmitter_fire this v w3))))
      else (Inr (), w))"

text \<open>The handler with the model of \<^verbatim>\<open>JSON.parse\<close> given above.\<close>

definition on_change :: "nat \<Rightarrow> string \<Rightarrow> json world \<Rightarrow> (error + unit) \<times> json world" where
  "on_change = on_change_with JSON_parse"

text \<open>
  The private constructor: a new object with an emitter without subscribers, and
  one more handler registered with the store. \<^verbatim>\<open>storage().context\<close> is taken to be
  there: \<^verbatim>\<open>activate\<close> creates the storage manager before anything uses the bus.
\<close>

definition constructor :: "'v world \<Rightarrow> nat \<times> 'v world" where
  "constructor w =
     (let this = length (objects w)
      in (this, w\<lparr>objects := objects w @ [\<lparr>eventEmitter = []\<rparr>],
                   onDidChange := onDidChange w @ [this]\<rparr>))"

definition getInstance :: "'v world \<Rightarrow> nat \<times> 'v world" where
  "getInstance w =
     (case instance_ref w of
        None \<Rightarrow>
          (let (this, w1) = constructor w
           in (this, emit [Log Info ''EventsSingleton instance created'']
                       (w1\<lparr>instance_ref := Some this\<rparr>)))
      | Some this \<Rightarrow> (this, w))"

text \<open>\<^verbatim>\<open>export const events = () => EventsSingleton.getInstance()\<close>\<close>

definition events :: "'v world \<Rightarrow> nat \<times> 'v world" where
  "events w = getInstance w"

text \<open>
  \<^verbatim>\<open>fire\<close>: the debug line, then the write of the encoded event under the prefixed
  name. The template literal of the debug line converts \<^verbatim>\<open>event.payload\<close> to a
  string: a plain object gives \<^verbatim>\<open>[object Object]\<close>, and an object with an own property
  \<^verbatim>\<open>toString\<close> (which no JSON value can make callable) raises a \<^verbatim>\<open>TypeError\<close> before
  anything is logged or written.
\<close>

definition fire :: "IEventPayload \<Rightarrow> 'v world \<Rightarrow> (error + unit) \<times> 'v world" where
  "fire event w =
     (if ''toString'' \<in> fst ` set (payload event) then (Inl TypeError, w)
      else
        secrets_store (EVENT_KEY_PREFIX @ name event) (JSON_stringify (envelope event))
          (emit [Log Debug (''Firing event: '' @ name event @ '' with payload: ''
                            @ ''[object Object]'')] w))"

text \<open>\<^verbatim>\<open>public event = this.eventEmitter.event\<close>: subscribing adds the listener after
  the ones already registered.\<close>

definition event :: "nat \<Rightarrow> listener \<Rightarrow> 'v world \<Rightarrow> 'v world" where
  "event this l w =
     (if this < length (objects w)
      then w\<lparr>objects := (objects w)
              [this := \<lparr>eventEmitter = eventEmitter (objects w ! this) @ [l]\<rparr>]\<rparr>
      else w)"

subsection \<open>The process\<close>

text \<open>The store delivers the oldest pending change event to every handler
  registered with \<^verbatim>\<open>onDidChange\<close>; the results are how the handlers' promises
  settle.\<close>

fun notify :: "nat list \<Rightarrow> string \<Rightarrow> json world \<Rightarrow> (error + unit) list \<times> json world" where
  "notify [] key w = ([], w)"
| "notify (this # rest) key w =
     (let (r, w1) = on_change this key w; (rs, w2) = notify rest key w1 in (r # rs, w2))"

definition deliver :: "json world \<Rightarrow> (error + unit) list \<times> json world" where
  "deliver w =
     (case notifications w of
        [] \<Rightarrow> ([], w)
      | key # ks \<Rightarrow> notify (onDidChange w) key (w\<lparr>notifications := ks\<rparr>))"

text \<open>A process that has just started, with an empty store.\<close>

definition start :: "json world" where
  "start = \<lparr>secrets = Map.empty, unavailable = False, notifications = [], onDidChange = [],
            objects = [], instance_ref = None, trace = []\<rparr>"

subsection \<open>Observations on a trace\<close>

text \<open>The values handed to \<^verbatim>\<open>eventEmitter.fire\<close>, in order: the dispatches.\<close>

fun dispatches :: "'v effect list \<Rightarrow> 'v list" where
  "dispatches [] = []"
| "dispatches (Fire v # es) = v # dispatches es"
| "dispatches (_ # es) = dispatches es"

text \<open>The values with which the subscriber \<open>n\<close> was called, in order.\<close>

fun calls_of :: "nat \<Rightarrow> 'v effect list \<Rightarrow> 'v list" where
  "calls_of n [] = []"
| "calls_of n (Call m v # es) = (if m = n then v # calls_of n es else calls_of n es)"
| "calls_of n (_ # es) = calls_of n es"

text \<open>The subscribers called, in order.\<close>

fun called :: "'v effect list \<Rightarrow> nat list" where
  "called [] = []"
| "called (Call m v # es) = m # called es"
| "called (_ # es) = called es"

text \<open>The writes to the store that were attempted, in order.\<close>

fun writes :: "'v effect list \<Rightarrow> (string \<times> string) list" where
  "writes [] = []"
| "writes (SecretsStore k v # es) = (k, v) # writes es"
| "writes (_ # es) = writes es"

subsection \<open>What the rest of the extension does with the bus\<close>

text \<open>
  The callers reach the bus through \<^verbatim>\<open>events()\<close> only: \<^verbatim>\<open>events()\<close> alone,
  \<^verbatim>\<open>events().fire(e)\<close>, \<^verbatim>\<open>events().event(l)\<close>. Besides them the process sees the
  store deliver a change event, another process write, and the store become
  unavailable or available again. \<open>perform\<close> returns the references that
  \<^verbatim>\<open>events()\<close> returned during the action.
\<close>

datatype action =
    Access
  | Publish IEventPayload
  | Subscribe listener
  | Deliver
  | Remote string string
  | Outage bool

fun perform :: "action \<Rightarrow> json world \<Rightarrow> nat list \<times> json world" where
  "perform Access w = (let (this, w1) = events w in ([this], w1))"
| "perform (Publish e) w = (let (this, w1) = events w in ([this], snd (fire e w1)))"
| "perform (Subscribe l) w = (let (this, w1) = events w in ([this], event this l w1))"
| "perform Deliver w = ([], snd (deliver w))"
| "perform (Remote k v) w = ([], remote_store k v w)"
| "perform (Outage b) w = ([], w\<lparr>unavailable := b\<rparr>)"

fun run :: "action list \<Rightarrow> json world \<Rightarrow> nat list \<times> json world" where
  "run [] w = ([], w)"
| "run (a # as) w =
     (let (rs, w1) = perform a w; (rs', w2) = run as w1 in (rs @ rs', w2))"



subsection \<open>JSON-serializable values\<close>

text \<open>
  A number of the model is in normal form: zero is \<open>JNum 0 0\<close>, and the mantissa of
  any other number is not divisible by ten.
\<close>

definition normal_number :: "int \<Rightarrow> int \<Rightarrow> bool" where
  "normal_number m e = (if m = 0 then e = 0 else m mod 10 \<noteq> 0)"

text \<open>
  The keys of a JavaScript object in the order the engine enumerates them: no key
  twice, and an array index is preceded only by smaller array indices.
\<close>

definition enumerates :: "string list \<Rightarrow> bool" where
  "enumerates ks =
     (distinct ks
      \<and> sorted_wrt (\<lambda>a b. is_array_index b \<longrightarrow>
                     is_array_index a \<and> digits_value a < digits_value b) ks)"

text \<open>
  The values of the model that are JavaScript values built from \<^verbatim>\<open>null\<close>, booleans,
  finite numbers, strings, arrays and plain objects: the JSON-serializable ones.
\<close>

fun JSON_serializable :: "json \<Rightarrow> bool" where
  "JSON_serializable JNull = True"
| "JSON_serializable (JBool b) = True"
| "JSON_serializable (JNum m e) = normal_number m e"
| "JSON_serializable (JStr s) = True"
| "JSON_serializable (JArr vs) = (\<forall>v \<in> set vs. JSON_serializable v)"
| "JSON_serializable (JObj ms) =
     (enumerates (map fst ms) \<and> (\<forall>kv \<in> set ms. JSON_serializable (snd kv)))"

text \<open>The tokens of the text that \<^verbatim>\<open>JSON.stringify\<close> writes for a value.\<close>

fun separated :: "token list list \<Rightarrow> token list" where
  "separated [] = []"
| "separated [x] = x"
| "separated (x # y # ys) = x @ TComma # separated (y # ys)"

fun tokens_of :: "json \<Rightarrow> token list" where
  "tokens_of JNull = [TNull]"
| "tokens_of (JBool b) = [if b then TTrue else TFalse]"
| "tokens_of (JNum m e) = [TNum m e]"
| "tokens_of (JStr s) = [TStr s]"
| "tokens_of (JArr vs) = TLBracket # separated (map tokens_of vs) @ [TRBracket]"
| "tokens_of (JObj ms) =
     TLBrace # separated (map (\<lambda>kv. TStr (fst kv) # TColon # tokens_of (snd kv)) ms)
     @ [TRBrace]"

text \<open>What may follow a number, and a value, in such a text.\<close>

definition not_digit_next :: "string \<Rightarrow> bool" where
  "not_digit_next rest = (case rest of [] \<Rightarrow> True | c # _ \<Rightarrow> \<not> is_digit c)"

definition ends_number :: "string \<Rightarrow> bool" where
  "ends_number rest =
     (case rest of [] \<Rightarrow> True
      | c # _ \<Rightarrow> \<not> is_digit c \<and> c \<noteq> CHR ''.'' \<and> c \<noteq> CHR ''e'' \<and> c \<noteq> CHR ''E'')"

definition delimited :: "string \<Rightarrow> bool" where
  "delimited rest =
     (case rest of [] \<Rightarrow> True | c # _ \<Rightarrow> c = CHR '','' \<or> c = CHR '']'' \<or> c = CHR ''}'')"

section \<open>Properties\<close>

subsection \<open>What each operation leaves untouched\<close>

lemma emit_fields [simp]:
  "secrets (emit es w) = secrets w"
  "unavailable (emit es w) = unavailable w"
  "notifications (emit es w) = notifications w"
  "onDidChange (emit es w) = onDidChange w"
  "objects (emit es w) = objects w"
  "instance_ref (emit es w) = instance_ref w"
  "trace (emit es w) = trace w @ es"
  by (simp_all add: emit_def)

lemma emit_emit [simp]: "emit es (emit fs w) = emit (fs @ es) w"
  by (simp add: emit_def)

lemma listeners_emit [simp]: "listeners this (emit es w) = listeners this w"
  by (simp add: listeners_def)

lemma on_change_frame:
  assumes "on_change this key w = (r, w')"
  shows "secrets w' = secrets w \<and> unavailable w' = unavailable w
         \<and> notifications w' = notifications w \<and> onDidChange w' = onDidChange w
         \<and> objects w' = objects w \<and> instance_ref w' = instance_ref w"
  using assms
  by (auto simp: on_change_def on_change_with_def secrets_get_def eventEmitter_fire_def Let_def
           split: if_splits option.splits sum.splits)

lemma notify_frame:
  "notify hs key w = (rs, w') \<Longrightarrow>
     secrets w' = secrets w \<and> unavailable w' = unavailable w
     \<and> notifications w' = notifications w \<and> onDidChange w' = onDidChange w
     \<and> objects w' = objects w \<and> instance_ref w' = instance_ref w"
proof (induction hs arbitrary: w rs w')
  case Nil
  then show ?case by simp
next
  case (Cons h hs)
  obtain r w1 where h: "on_change h key w = (r, w1)" by (cases "on_change h key w")
  obtain rs1 w2 where t: "notify hs key w1 = (rs1, w2)" by (cases "notify hs key w1")
  from Cons.prems h t have "w' = w2" by simp
  with Cons.IH [OF t] on_change_frame [OF h] show ?case by simp
qed

lemma deliver_frame:
  assumes "deliver w = (rs, w')"
  shows "secrets w' = secrets w \<and> unavailable w' = unavailable w
         \<and> onDidChange w' = onDidChange w
         \<and> objects w' = objects w \<and> instance_ref w' = instance_ref w"
proof (cases "notifications w")
  case Nil
  with assms show ?thesis by (simp add: deliver_def)
next
  case (Cons key ks)
  with assms have "notify (onDidChange w) key (w\<lparr>notifications := ks\<rparr>) = (rs, w')"
    by (simp add: deliver_def)
  from notify_frame [OF this] show ?thesis by simp
qed

lemma fire_frame:
  assumes "fire e w = (r, w')"
  shows "onDidChange w' = onDidChange w \<and> objects w' = objects w
         \<and> instance_ref w' = instance_ref w \<and> unavailable w' = unavailable w"
  using assms
  by (auto simp: fire_def secrets_store_def split: if_splits)

subsection \<open>Observations distribute over the trace\<close>

lemma dispatches_append [simp]: "dispatches (xs @ ys) = dispatches xs @ dispatches ys"
  by (induction xs rule: dispatches.induct) simp_all

lemma calls_of_append [simp]: "calls_of n (xs @ ys) = calls_of n xs @ calls_of n ys"
  by (induction n xs rule: calls_of.induct) simp_all

lemma called_append [simp]: "called (xs @ ys) = called xs @ called ys"
  by (induction xs rule: called.induct) simp_all

lemma writes_append [simp]: "writes (xs @ ys) = writes xs @ writes ys"
  by (induction xs rule: writes.induct) simp_all

section \<open>JSON.parse reads back what JSON.stringify writes\<close>

subsection \<open>Digit strings\<close>

lemma foldl_digits:
  "foldl (\<lambda>a c. 10 * a + digit_value c) a ys = a * 10 ^ length ys + digits_value ys"
proof (induction ys arbitrary: a)
  case Nil
  then show ?case by (simp add: digits_value_def)
next
  case (Cons y ys)
  have "digits_value (y # ys) = foldl (\<lambda>a c. 10 * a + digit_value c) (digit_value y) ys"
    by (simp add: digits_value_def)
  also have "\<dots> = digit_value y * 10 ^ length ys + digits_value ys"
    by (rule Cons.IH)
  finally have d: "digits_value (y # ys) = digit_value y * 10 ^ length ys + digits_value ys" .
  have e: "foldl (\<lambda>a c. 10 * a + digit_value c) a (y # ys)
          = foldl (\<lambda>a c. 10 * a + digit_value c) (10 * a + digit_value y) ys"
    by simp
  have f: "foldl (\<lambda>a c. 10 * a + digit_value c) (10 * a + digit_value y) ys = (10 * a + digit_value y) * 10 ^ length ys + digits_value ys"
    by (rule Cons.IH)
  show ?case unfolding e f d by (simp add: algebra_simps)
qed

lemma digits_value_append:
  "digits_value (xs @ ys) = digits_value xs * 10 ^ length ys + digits_value ys"
proof -
  have "digits_value (xs @ ys)
          = foldl (\<lambda>a c. 10 * a + digit_value c) (digits_value xs) ys"
    by (simp add: digits_value_def)
  then show ?thesis by (simp only: foldl_digits)
qed

lemma digit_cases:
  "0 \<le> d \<Longrightarrow> d < 10 \<Longrightarrow>
     d = 0 \<or> d = 1 \<or> d = 2 \<or> d = 3 \<or> d = 4 \<or> d = 5 \<or> d = 6 \<or> d = 7 \<or> d = 8 \<or> d = (9::int)"
  by presburger

lemma digit_char_is_digit: "0 \<le> d \<Longrightarrow> d < 10 \<Longrightarrow> is_digit (digit_char d)"
  by (drule (1) digit_cases, elim disjE) (simp_all add: digit_char_def is_digit_def char_of_def)

lemma digit_value_digit_char: "0 \<le> d \<Longrightarrow> d < 10 \<Longrightarrow> digit_value (digit_char d) = d"
  by (drule (1) digit_cases, elim disjE) (simp_all add: digit_char_def digit_value_def char_of_def)

lemma digit_char_zero: "0 \<le> d \<Longrightarrow> d < 10 \<Longrightarrow> digit_char d = CHR ''0'' \<longleftrightarrow> d = 0"
  by (drule (1) digit_cases, elim disjE) (simp_all add: digit_char_def char_of_def)

lemma digits_small: "n < 10 \<Longrightarrow> digits n = [digit_char n]"
  by (simp add: digits.simps [of n])

lemma digits_large: "\<not> n < 10 \<Longrightarrow> digits n = digits (n div 10) @ [digit_char (n mod 10)]"
  by (simp add: digits.simps [of n])

lemma digits_props:
  "0 \<le> n \<Longrightarrow> digits n \<noteq> [] \<and> list_all is_digit (digits n) \<and> digits_value (digits n) = n
     \<and> (0 < n \<longrightarrow> hd (digits n) \<noteq> CHR ''0'')
     \<and> (last (digits n) = CHR ''0'' \<longleftrightarrow> n mod 10 = 0)"
proof (induction n rule: digits.induct)
  case (1 n)
  show ?case
  proof (cases "n < 10")
    case True
    with 1(2) show ?thesis
      by (simp add: digits_small digit_char_is_digit digit_value_digit_char
            digits_value_def digit_char_zero)
  next
    case False
    then have p: "0 \<le> n div 10" "0 < n div 10" "0 \<le> n mod 10" "n mod 10 < 10" by auto
    from 1(1) [OF False p(1)] p
    have ih: "digits (n div 10) \<noteq> []" "list_all is_digit (digits (n div 10))"
      "digits_value (digits (n div 10)) = n div 10" "hd (digits (n div 10)) \<noteq> CHR ''0''"
      by simp_all
    have v: "digits_value [digit_char (n mod 10)] = n mod 10"
      using p(3,4) by (simp add: digits_value_def digit_value_digit_char)
    show ?thesis
      using ih p(3,4) False
      by (simp add: digits_large digit_char_is_digit digits_value_append v
            digit_char_zero)
  qed
qed

lemma takeWhile_digits:
  "list_all is_digit ds \<Longrightarrow> not_digit_next rest \<Longrightarrow>
     takeWhile is_digit (ds @ rest) = ds \<and> dropWhile is_digit (ds @ rest) = rest"
  by (induction ds) (auto simp: not_digit_next_def split: list.splits)

lemma lex_integer_digits:
  assumes "ds \<noteq> []" and "list_all is_digit ds" and "hd ds \<noteq> CHR ''0''"
    and "not_digit_next rest"
  shows "lex_integer (ds @ rest) = Some (ds, rest)"
proof -
  from assms(1) obtain d ds' where ds: "ds = d # ds'" by (cases ds) auto
  with assms(2) have "list_all is_digit ds'" "is_digit d" by simp_all
  with takeWhile_digits [OF this(1) assms(4)] assms(3) ds show ?thesis
    by (simp add: lex_integer_def)
qed

lemma lex_integer_zero: "lex_integer (CHR ''0'' # rest) = Some (''0'', rest)"
  by (simp add: lex_integer_def)

lemma lex_fraction_digits:
  assumes "fs \<noteq> []" and "list_all is_digit fs" and "not_digit_next rest"
  shows "lex_fraction (CHR ''.'' # fs @ rest) = (fs, rest)"
  using takeWhile_digits [OF assms(2,3)] assms(1) by (simp add: lex_fraction_def)

lemma lex_fraction_none:
  "rest = [] \<or> hd rest \<noteq> CHR ''.'' \<Longrightarrow> lex_fraction rest = ([], rest)"
  by (cases rest) (auto simp: lex_fraction_def)

lemma lex_exponent_none:
  "rest = [] \<or> (hd rest \<noteq> CHR ''e'' \<and> hd rest \<noteq> CHR ''E'') \<Longrightarrow> lex_exponent rest = (0, rest)"
  by (cases rest) (auto simp: lex_exponent_def)

lemma is_digit_not_sign: "is_digit c \<Longrightarrow> c \<noteq> CHR ''-'' \<and> c \<noteq> CHR ''+''"
  by (auto simp: is_digit_def)

lemma lex_exponent_plus:
  assumes "ds \<noteq> []" and "list_all is_digit ds" and "not_digit_next rest"
  shows "lex_exponent (CHR ''e'' # CHR ''+'' # ds @ rest) = (digits_value ds, rest)"
  using takeWhile_digits [OF assms(2,3)] assms(1)
  by (simp add: lex_exponent_def lex_sign_def)

lemma lex_exponent_minus:
  assumes "ds \<noteq> []" and "list_all is_digit ds" and "not_digit_next rest"
  shows "lex_exponent (CHR ''e'' # CHR ''-'' # ds @ rest) = (- digits_value ds, rest)"
  using takeWhile_digits [OF assms(2,3)] assms(1)
  by (simp add: lex_exponent_def lex_sign_def)

lemma digits_value_zeros: "digits_value (replicate j (CHR ''0'')) = 0"
proof (induction j)
  case 0
  then show ?case by (simp add: digits_value_def)
next
  case (Suc j)
  have "digits_value ([CHR ''0''] @ replicate j (CHR ''0'')) = 0"
    unfolding digits_value_append using Suc by (simp add: digits_value_def digit_value_def)
  then show ?case by simp
qed

lemma takeWhile_zeros:
  "a \<noteq> CHR ''0'' \<Longrightarrow>
     takeWhile (\<lambda>c. c = CHR ''0'') (replicate t (CHR ''0'') @ a # rest) = replicate t (CHR ''0'')"
  by (induction t) simp_all

lemma decimal_digits:
  assumes "ds \<noteq> []" and "last ds \<noteq> CHR ''0''" and "digits_value ds = m" and "m \<noteq> 0"
  shows "decimal (replicate j (CHR ''0'') @ ds @ replicate t (CHR ''0'')) e = (m, e + int t)"
proof -
  let ?z = "CHR ''0''"
  let ?all = "replicate j ?z @ ds @ replicate t ?z"
  have "rev ?all = replicate t ?z @ rev ds @ replicate j ?z" by simp
  moreover have "hd (rev ds) \<noteq> ?z" using assms(1,2) by (simp add: hd_rev)
  ultimately have "takeWhile (\<lambda>c. c = ?z) (rev ?all) = replicate t ?z"
    using assms(1) by (cases "rev ds") (simp_all add: takeWhile_zeros)
  then have z: "length (takeWhile (\<lambda>c. c = ?z) (rev ?all)) = t" by simp
  have "take (length ?all - t) ?all = replicate j ?z @ ds" by simp
  moreover have "digits_value (replicate j ?z @ ds) = m"
    by (simp add: digits_value_append digits_value_zeros assms(3))
  ultimately show ?thesis using assms(4) z by (simp add: decimal_def Let_def)
qed

subsection \<open>Numbers\<close>

lemma ends_number_simps:
  assumes "ends_number rest"
  shows "not_digit_next rest" "rest = [] \<or> hd rest \<noteq> CHR ''.''"
    "rest = [] \<or> (hd rest \<noteq> CHR ''e'' \<and> hd rest \<noteq> CHR ''E'')"
  using assms by (auto simp: ends_number_def not_digit_next_def split: list.splits)

lemma not_digit_next_simps [simp]:
  "not_digit_next (CHR ''.'' # r)" "not_digit_next (CHR ''e'' # r)"
  by (simp_all add: not_digit_next_def is_digit_def)

lemma zeros_are_digits [simp]: "list_all is_digit (replicate j (CHR ''0''))"
  by (induction j) (simp_all add: is_digit_def)

lemma decimal_plain:
  assumes "ds \<noteq> []" and "last ds \<noteq> CHR ''0''" and "digits_value ds = m" and "m \<noteq> 0"
  shows "decimal ds e = (m, e)"
  using decimal_digits [OF assms, of 0 0 e] by simp

lemma lex_number_body:
  assumes "0 < a" and "a mod 10 \<noteq> 0" and "ends_number rest"
  shows "\<exists>ip fp ex r2 r3.
           lex_integer (decimal_notation a e @ rest) = Some (ip, r2)
           \<and> lex_fraction r2 = (fp, r3) \<and> lex_exponent r3 = (ex, rest)
           \<and> decimal (ip @ fp) (ex - int (length fp)) = (a, e)"
proof -
  define ds where "ds = digits a"
  define k where "k = int (length ds)"
  define n where "n = k + e"
  from digits_props [of a] assms(1,2)
  have ds: "ds \<noteq> []" "list_all is_digit ds" "digits_value ds = a" "hd ds \<noteq> CHR ''0''"
    "last ds \<noteq> CHR ''0''"
    by (simp_all add: ds_def)
  have a0: "a \<noteq> 0" using assms(1) by simp
  have S: "decimal_notation a e =
     (if k \<le> n \<and> n \<le> 21 then ds @ replicate (nat (n - k)) (CHR ''0'')
      else if 0 < n \<and> n \<le> 21 then take (nat n) ds @ ''.'' @ drop (nat n) ds
      else if - 6 < n \<and> n \<le> 0 then ''0.'' @ replicate (nat (- n)) (CHR ''0'') @ ds
      else (if k = 1 then ds else take 1 ds @ ''.'' @ drop 1 ds) @ ''e''
           @ (if 0 \<le> n - 1 then ''+'' else ''-'') @ digits \<bar>n - 1\<bar>)"
    by (simp only: decimal_notation_def Let_def n_def k_def ds_def)
  have k1: "1 \<le> k" using ds(1) by (cases ds) (simp_all add: k_def)
  have e: "e = n - k" by (simp add: n_def)
  note en = ends_number_simps [OF assms(3)]
  note dp = decimal_plain [OF ds(1,5,3) a0]
  consider (plain) "k \<le> n" "n \<le> 21"
    | (point) "\<not> (k \<le> n \<and> n \<le> 21)" "0 < n" "n \<le> 21"
    | (small) "\<not> (k \<le> n \<and> n \<le> 21)" "\<not> (0 < n \<and> n \<le> 21)" "- 6 < n" "n \<le> 0"
    | (expo) "\<not> (k \<le> n \<and> n \<le> 21)" "\<not> (0 < n \<and> n \<le> 21)" "\<not> (- 6 < n \<and> n \<le> 0)"
    by linarith
  then show ?thesis
  proof cases
    case plain
    let ?ip = "ds @ replicate (nat (n - k)) (CHR ''0'')"
    have s: "decimal_notation a e = ?ip"
      using plain S by simp
    have d: "list_all is_digit ?ip" "?ip \<noteq> []" "hd ?ip \<noteq> CHR ''0''"
      using ds by simp_all
    have "decimal (replicate 0 (CHR ''0'') @ ds @ replicate (nat (n - k)) (CHR ''0'')) 0
            = (a, 0 + int (nat (n - k)))"
      by (rule decimal_digits [OF ds(1,5,3) a0])
    moreover have "0 + int (nat (n - k)) = e" using plain(1) e by simp
    ultimately have "decimal (?ip @ []) (0 - int (length ([]::string))) = (a, e)"
      by simp
    with lex_integer_digits [OF d(2,1,3) en(1)] lex_fraction_none [OF en(2)]
      lex_exponent_none [OF en(3)] s
    show ?thesis by metis
  next
    case point
    then have nk: "n < k" by linarith
    let ?ip = "take (nat n) ds"
    let ?fp = "drop (nat n) ds"
    have s: "decimal_notation a e @ rest = ?ip @ CHR ''.'' # ?fp @ rest"
      using point S by simp
    have i: "?ip \<noteq> []" "list_all is_digit ?ip" "hd ?ip \<noteq> CHR ''0''"
      using ds point(2) by (auto simp: list_all_iff dest: in_set_takeD)
    have nl: "nat n < length ds" using nk point(2) by (simp add: k_def)
    then have f: "?fp \<noteq> []" "list_all is_digit ?fp"
      using ds by (auto simp: list_all_iff dest: in_set_dropD)
    have "int (length ?fp) = k - n" using nl point(2) by (simp add: k_def)
    then have "0 - int (length ?fp) = e" using e by simp
    with dp [of "0 - int (length ?fp)"]
    have "decimal (?ip @ ?fp) (0 - int (length ?fp)) = (a, e)" by simp
    with lex_integer_digits [OF i not_digit_next_simps(1), of "?fp @ rest"]
      lex_fraction_digits [OF f en(1)] lex_exponent_none [OF en(3)] s
    show ?thesis by metis
  next
    case small
    let ?zs = "replicate (nat (- n)) (CHR ''0'')"
    let ?fp = "?zs @ ds"
    have s: "decimal_notation a e @ rest = CHR ''0'' # CHR ''.'' # ?fp @ rest"
      using small S by simp
    have f: "?fp \<noteq> []" "list_all is_digit ?fp"
      using ds by simp_all
    have "int (length ?fp) = k - n" using small(4) by (simp add: k_def)
    then have l: "0 - int (length ?fp) = e" using e by simp
    have "decimal (replicate (Suc (nat (- n))) (CHR ''0'') @ ds @ replicate 0 (CHR ''0'')) e
            = (a, e + int 0)"
      by (rule decimal_digits [OF ds(1,5,3) a0])
    then have "decimal (''0'' @ ?fp) e = (a, e)" by simp
    then have "decimal (''0'' @ ?fp) (0 - int (length ?fp)) = (a, e)"
      by (simp only: l)
    with lex_integer_zero [of "CHR ''.'' # ?fp @ rest"]
      lex_fraction_digits [OF f en(1)] lex_exponent_none [OF en(3)] s
    show ?thesis by metis
  next
    case expo
    let ?x = "digits \<bar>n - 1\<bar>"
    from digits_props [of "\<bar>n - 1\<bar>"]
    have x: "?x \<noteq> []" "list_all is_digit ?x" "digits_value ?x = \<bar>n - 1\<bar>" by simp_all
    let ?sg = "if 0 \<le> n - 1 then CHR ''+'' else CHR ''-''"
    let ?tail = "CHR ''e'' # ?sg # ?x @ rest"
    have t: "lex_exponent ?tail = (n - 1, rest)"
      using lex_exponent_plus [OF x(1,2) en(1)] lex_exponent_minus [OF x(1,2) en(1)] x(3)
      by auto
    have nf: "lex_fraction ?tail = ([], ?tail)"
      by (rule lex_fraction_none) simp
    have S': "decimal_notation a e
                = (if k = 1 then ds else take 1 ds @ ''.'' @ drop 1 ds) @ ''e''
                  @ (if 0 \<le> n - 1 then ''+'' else ''-'') @ ?x"
      by (simp only: S expo if_False)
    show ?thesis
    proof (cases "k = 1")
      case True
      have s: "decimal_notation a e @ rest = ds @ ?tail"
        using True by (simp add: S')
      have "n - 1 = e" using True e by simp
      with dp [of "n - 1"]
      have "decimal (ds @ []) (n - 1 - int (length ([]::string))) = (a, e)"
        by simp
      with lex_integer_digits [OF ds(1,2,4) not_digit_next_simps(2), of "?sg # ?x @ rest"]
        nf t s
      show ?thesis by metis
    next
      case False
      with k1 have k2: "1 < k" by simp
      let ?ip = "take 1 ds"
      let ?fp = "drop 1 ds"
      have s: "decimal_notation a e @ rest = ?ip @ CHR ''.'' # ?fp @ ?tail"
        using False by (simp add: S')
      have i: "?ip \<noteq> []" "list_all is_digit ?ip" "hd ?ip \<noteq> CHR ''0''"
        using ds by (auto simp: list_all_iff dest: in_set_takeD)
      have "1 < length ds" using k2 by (simp add: k_def)
      then have f: "?fp \<noteq> []" "list_all is_digit ?fp"
        using ds by (auto simp: list_all_iff dest: in_set_dropD)
      have "int (length ?fp) = k - 1" using k2 by (simp add: k_def)
      then have "n - 1 - int (length ?fp) = e" using e by simp
      with dp [of "n - 1 - int (length ?fp)"]
      have "decimal (?ip @ ?fp) (n - 1 - int (length ?fp)) = (a, e)" by simp
      with lex_integer_digits [OF i not_digit_next_simps(1), of "?fp @ ?tail"]
        lex_fraction_digits [OF f not_digit_next_simps(2), of "?sg # ?x @ rest"] t s
      show ?thesis by metis
    qed
  qed
qed

lemma lex_integer_no_minus: "lex_integer cs = Some x \<Longrightarrow> lex_minus cs = (False, cs)"
  by (auto simp: lex_integer_def lex_minus_def is_digit_def split: list.splits if_splits)

lemma lex_number_zero:
  assumes "ends_number rest"
  shows "lex_number (CHR ''0'' # rest) = Some ((0, 0), rest)"
proof -
  note en = ends_number_simps [OF assms]
  have "decimal ''0'' 0 = (0, 0)"
    by (simp add: decimal_def digits_value_def)
  with lex_fraction_none [OF en(2)] lex_exponent_none [OF en(3)] show ?thesis
    by (simp add: lex_number_def lex_minus_def lex_integer_def)
qed

lemma lex_number_toString:
  assumes "normal_number m e" and "ends_number rest"
  shows "lex_number (Number_toString m e @ rest) = Some ((m, e), rest)"
proof (cases "m = 0")
  case True
  with assms(1) have "e = 0" by (simp add: normal_number_def)
  with True lex_number_zero [OF assms(2)] show ?thesis
    by (simp add: Number_toString_def)
next
  case False
  with assms(1) have "m mod 10 \<noteq> 0" by (simp add: normal_number_def)
  then have a: "0 < \<bar>m\<bar>" "\<bar>m\<bar> mod 10 \<noteq> 0"
    using False by (auto simp: abs_if mod_minus_eq dvd_eq_mod_eq_0 [symmetric])
  from lex_number_body [OF a assms(2), of e]
  obtain ip fp ex r2 r3 where
    b: "lex_integer (decimal_notation \<bar>m\<bar> e @ rest) = Some (ip, r2)"
      "lex_fraction r2 = (fp, r3)" "lex_exponent r3 = (ex, rest)"
      "decimal (ip @ fp) (ex - int (length fp)) = (\<bar>m\<bar>, e)"
    by blast
  show ?thesis
  proof (cases "m < 0")
    case True
    with b show ?thesis
      by (simp add: Number_toString_def lex_number_def lex_minus_def)
  next
    case False
    with \<open>m \<noteq> 0\<close> b lex_integer_no_minus [OF b(1)] show ?thesis
      by (simp add: Number_toString_def lex_number_def)
  qed
qed

subsection \<open>Strings\<close>

lemma hex_char_cases:
  "d < 16 \<Longrightarrow> d = 0 \<or> d = 1 \<or> d = 2 \<or> d = 3 \<or> d = 4 \<or> d = 5 \<or> d = 6 \<or> d = 7 \<or> d = 8
     \<or> d = 9 \<or> d = 10 \<or> d = 11 \<or> d = 12 \<or> d = 13 \<or> d = 14 \<or> d = (15::nat)"
  by presburger

lemma hex_value_hex_char: "d < 16 \<Longrightarrow> hex_value (hex_char d) = Some (int d)"
  by (drule hex_char_cases, elim disjE; hypsubst; code_simp)

lemma hex4_control:
  assumes "n < 32"
  shows "hex4 (CHR ''0'') (CHR ''0'') (hex_char (n div 16)) (hex_char (n mod 16)) = Some (int n)"
proof -
  have "n div 16 < 16" "n mod 16 < 16" using assms by simp_all
  from hex_value_hex_char [OF this(1)] hex_value_hex_char [OF this(2)]
  have "hex4 (CHR ''0'') (CHR ''0'') (hex_char (n div 16)) (hex_char (n mod 16))
          = Some (int (n div 16) * 16 + int (n mod 16))"
    by (simp add: hex4_def hex_value_def is_digit_def)
  moreover have "int (n div 16) * 16 + int (n mod 16) = int n"
    by (simp add: zdiv_int zmod_int)
  ultimately show ?thesis by simp
qed

lemma lex_string_quote_char:
  "lex_string (quote_char c @ rest) = consume c (lex_string rest)"
proof -
  consider (special) "c = dquote \<or> c = bslash \<or> c = CHR 0x08 \<or> c = CHR 0x0C \<or> c = CHR 0x0A
        \<or> c = CHR 0x0D \<or> c = CHR 0x09"
    | (control) "\<not> (c = dquote \<or> c = bslash \<or> c = CHR 0x08 \<or> c = CHR 0x0C \<or> c = CHR 0x0A
        \<or> c = CHR 0x0D \<or> c = CHR 0x09)" "(of_char c :: nat) < 32"
    | (plain) "\<not> (c = dquote \<or> c = bslash \<or> c = CHR 0x08 \<or> c = CHR 0x0C \<or> c = CHR 0x0A
        \<or> c = CHR 0x0D \<or> c = CHR 0x09)" "\<not> (of_char c :: nat) < 32"
    by blast
  then show ?thesis
  proof cases
    case special
    then show ?thesis
      by (elim disjE) (simp_all add: quote_char_def unescape_def)
  next
    case control
    have "char_of (int (of_char c)) = c"
      by (simp add: of_nat_of_char)
    with control hex4_control [OF control(2)] show ?thesis
      by (simp add: quote_char_def)
  next
    case plain
    then show ?thesis by (simp add: quote_char_def)
  qed
qed

lemma lex_string_quoted:
  "lex_string (concat (map quote_char s) @ dquote # rest) = Some (s, rest)"
  by (induction s) (simp_all add: lex_string_quote_char consume_def)

subsection \<open>Tokens of a written value\<close>

lemma delimited_ends_number: "delimited rest \<Longrightarrow> ends_number rest"
  by (auto simp: delimited_def ends_number_def is_digit_def split: list.splits)

lemma delimited_simps [simp]:
  "delimited []" "delimited (CHR '','' # r)" "delimited (CHR '']'' # r)"
  "delimited (CHR ''}'' # r)"
  by (simp_all add: delimited_def)

lemma lex_number_start:
  "lex_number (c # cs) = Some x \<Longrightarrow> c = CHR ''-'' \<or> is_digit c"
  by (auto simp: lex_number_def lex_minus_def lex_integer_def is_digit_def
           split: if_splits option.splits prod.splits list.splits)

lemma lex_number_token:
  assumes "lex_number input = Some ((m, e), rest)" and "lex rest = Some ts"
  shows "lex input = Some (TNum m e # ts)"
proof (cases input)
  case Nil
  with assms show ?thesis by (simp add: lex_number_def lex_minus_def lex_integer_def)
next
  case (Cons c cs)
  with assms lex_number_start [of c cs] have "c = CHR ''-'' \<or> is_digit c" by simp
  then have "\<not> is_space c" "punctuation c = None" "c \<noteq> dquote"
    by (auto simp: is_space_def punctuation_def is_digit_def)
  with assms Cons \<open>c = CHR ''-'' \<or> is_digit c\<close> show ?thesis by (auto simp: lex.simps)
qed

lemma lex_string_token:
  "lex rest = Some ts \<Longrightarrow> lex (QuoteJSONString s @ rest) = Some (TStr s # ts)"
  by (simp add: QuoteJSONString_def lex_string_quoted is_space_def punctuation_def lex.simps)

lemma lex_punctuation:
  "lex r = Some ts \<Longrightarrow> lex (CHR ''['' # r) = Some (TLBracket # ts)"
  "lex r = Some ts \<Longrightarrow> lex (CHR '']'' # r) = Some (TRBracket # ts)"
  "lex r = Some ts \<Longrightarrow> lex (CHR ''{'' # r) = Some (TLBrace # ts)"
  "lex r = Some ts \<Longrightarrow> lex (CHR ''}'' # r) = Some (TRBrace # ts)"
  "lex r = Some ts \<Longrightarrow> lex (CHR '','' # r) = Some (TComma # ts)"
  "lex r = Some ts \<Longrightarrow> lex (CHR '':'' # r) = Some (TColon # ts)"
  by (simp_all add: is_space_def punctuation_def lex.simps)

lemma lex_literals:
  "lex r = Some ts \<Longrightarrow> lex (CHR ''n'' # CHR ''u'' # CHR ''l'' # CHR ''l'' # r) = Some (TNull # ts)"
  "lex r = Some ts \<Longrightarrow> lex (CHR ''t'' # CHR ''r'' # CHR ''u'' # CHR ''e'' # r) = Some (TTrue # ts)"
  "lex r = Some ts \<Longrightarrow>
     lex (CHR ''f'' # CHR ''a'' # CHR ''l'' # CHR ''s'' # CHR ''e'' # r) = Some (TFalse # ts)"
  by (simp_all add: is_space_def punctuation_def is_digit_def lex.simps)

lemma lex_join:
  assumes "\<And>x rest ts. x \<in> set xs \<Longrightarrow> delimited rest \<Longrightarrow> lex rest = Some ts \<Longrightarrow>
             lex (f x @ rest) = Some (g x @ ts)"
    and "delimited rest" and "lex rest = Some ts"
  shows "lex (join_commas (map f xs) @ rest) = Some (separated (map g xs) @ ts)"
  using assms
proof (induction xs rule: induct_list012)
  case 1
  then show ?case by simp
next
  case (2 x)
  then show ?case by simp
next
  case (3 x y zs)
  have "lex (join_commas (map f (y # zs)) @ rest) = Some (separated (map g (y # zs)) @ ts)"
    by (rule "3.IH"(2)) (use "3.prems" in auto)
  then have "lex (CHR '','' # join_commas (map f (y # zs)) @ rest)
               = Some (TComma # separated (map g (y # zs)) @ ts)"
    by (rule lex_punctuation)
  then have "lex (f x @ CHR '','' # join_commas (map f (y # zs)) @ rest)
               = Some (g x @ TComma # separated (map g (y # zs)) @ ts)"
    by (intro "3.prems"(1)) simp_all
  then show ?case by simp
qed

lemma lex_stringify:
  "JSON_serializable v \<Longrightarrow> delimited rest \<Longrightarrow> lex rest = Some ts \<Longrightarrow>
     lex (JSON_stringify v @ rest) = Some (tokens_of v @ ts)"
proof (induction v arbitrary: rest ts)
  case JNull
  then show ?case by (simp add: lex_literals)
next
  case (JBool b)
  then show ?case by (simp add: lex_literals)
next
  case (JNum m e)
  then have "lex_number (Number_toString m e @ rest) = Some ((m, e), rest)"
    by (intro lex_number_toString delimited_ends_number) simp_all
  from lex_number_token [OF this JNum.prems(3)] show ?case by simp
next
  case (JStr s)
  then show ?case by (simp add: lex_string_token)
next
  case (JArr vs)
  from JArr.prems(3) have "lex (CHR '']'' # rest) = Some (TRBracket # ts)"
    by (rule lex_punctuation)
  then have "lex (join_commas (map JSON_stringify vs) @ CHR '']'' # rest)
          = Some (separated (map tokens_of vs) @ TRBracket # ts)"
    by (intro lex_join) (use JArr in auto)
  then show ?case by (simp add: lex_punctuation)
next
  case (JObj ms)
  let ?f = "\<lambda>kv. QuoteJSONString (fst kv) @ '':'' @ JSON_stringify (snd kv)"
  let ?g = "\<lambda>kv. TStr (fst kv) # TColon # tokens_of (snd kv)"
  from JObj.prems(3) have c: "lex (CHR ''}'' # rest) = Some (TRBrace # ts)"
    by (rule lex_punctuation)
  have "lex (join_commas (map ?f ms) @ CHR ''}'' # rest)
          = Some (separated (map ?g ms) @ TRBrace # ts)"
  proof (rule lex_join [OF _ _ c])
    fix kv r us
    assume kv: "kv \<in> set ms" and r: "delimited r" and us: "lex r = Some us"
    obtain k v where p: "kv = (k, v)" by (cases kv)
    with kv JObj.prems(1) have "JSON_serializable v" by auto
    with JObj.IH [of kv v r us] kv p r us
    have "lex (JSON_stringify v @ r) = Some (tokens_of v @ us)" by simp
    then have "lex (CHR '':'' # JSON_stringify v @ r) = Some (TColon # tokens_of v @ us)"
      by (rule lex_punctuation)
    from lex_string_token [OF this, of k] p
    show "lex (?f kv @ r) = Some (?g kv @ us)" by simp
  qed simp
  then show ?case by (simp add: lex_punctuation)
qed

subsection \<open>Parsing the tokens of a written value\<close>

lemma insert_index_last:
  "\<forall>p \<in> set ms. is_array_index (fst p) \<and> digits_value (fst p) < digits_value k \<Longrightarrow>
     insert_index k v ms = ms @ [(k, v)]"
  by (induction ms) simp_all

lemma CreateDataProperty_last:
  assumes "enumerates (map fst (ms @ [(k, v)]))"
  shows "CreateDataProperty ms k v = ms @ [(k, v)]"
proof -
  from assms have n: "k \<notin> fst ` set ms"
    and o: "\<forall>a \<in> set (map fst ms). is_array_index k \<longrightarrow>
              is_array_index a \<and> digits_value a < digits_value k"
    by (auto simp: enumerates_def sorted_wrt_append)
  show ?thesis
  proof (cases "is_array_index k")
    case True
    with o have "\<forall>p \<in> set ms. is_array_index (fst p) \<and> digits_value (fst p) < digits_value k"
      by simp
    from insert_index_last [OF this] n True show ?thesis
      by (simp add: CreateDataProperty_def)
  next
    case False
    with n show ?thesis by (simp add: CreateDataProperty_def)
  qed
qed

lemma enumerates_butlast: "enumerates (ks @ [k]) \<Longrightarrow> enumerates ks"
  by (simp add: enumerates_def sorted_wrt_append)

lemma build_object:
  "enumerates (map fst ms) \<Longrightarrow>
     foldl (\<lambda>acc kv. CreateDataProperty acc (fst kv) (snd kv)) [] ms = ms"
proof (induction ms rule: rev_induct)
  case Nil
  then show ?case by simp
next
  case (snoc kv ms)
  from snoc.prems have "enumerates (map fst ms)"
    by (simp add: enumerates_butlast)
  with snoc.IH have "foldl (\<lambda>acc kv. CreateDataProperty acc (fst kv) (snd kv)) [] ms = ms"
    by simp
  moreover from snoc.prems have "CreateDataProperty ms (fst kv) (snd kv) = ms @ [kv]"
    using CreateDataProperty_last [of ms "fst kv" "snd kv"] by simp
  ultimately show ?case by simp
qed

lemma separated_Cons: "separated (x # xs) = x @ concat (map (\<lambda>y. TComma # y) xs)"
  by (induction xs arbitrary: x) simp_all

lemma tokens_of_start: "\<exists>t r. tokens_of v = t # r \<and> t \<noteq> TRBracket"
  by (cases v) auto

lemma first_element:
  "t \<noteq> TRBracket \<Longrightarrow>
     parse_tokens (AwaitFirstElem st) (t # ts) = parse_tokens (AwaitValue (InArr [] # st)) (t # ts)"
  by simp

lemma parse_elements:
  assumes "\<And>v st ts. v \<in> set vs \<Longrightarrow>
             parse_tokens (AwaitValue st) (tokens_of v @ ts) = parse_tokens (complete v st) ts"
  shows "parse_tokens (AfterElem acc st)
           (concat (map (\<lambda>y. TComma # y) (map tokens_of vs)) @ TRBracket # ts)
         = parse_tokens (complete (JArr (rev acc @ vs)) st) ts"
  using assms
proof (induction vs arbitrary: acc)
  case Nil
  then show ?case by simp
next
  case (Cons v vs)
  have "parse_tokens (AfterElem (v # acc) st)
           (concat (map (\<lambda>y. TComma # y) (map tokens_of vs)) @ TRBracket # ts)
         = parse_tokens (complete (JArr (rev (v # acc) @ vs)) st) ts"
    by (rule Cons.IH) (use Cons.prems in auto)
  moreover have "parse_tokens (AwaitValue (InArr acc # st))
           (tokens_of v @ concat (map (\<lambda>y. TComma # y) (map tokens_of vs)) @ TRBracket # ts)
         = parse_tokens (complete v (InArr acc # st))
             (concat (map (\<lambda>y. TComma # y) (map tokens_of vs)) @ TRBracket # ts)"
    by (rule Cons.prems) simp
  ultimately show ?case by simp
qed

lemma parse_members:
  assumes "\<And>kv st ts. kv \<in> set ms \<Longrightarrow>
             parse_tokens (AwaitValue st) (tokens_of (snd kv) @ ts)
               = parse_tokens (complete (snd kv) st) ts"
  shows "parse_tokens (AfterMember acc st)
           (concat (map (\<lambda>y. TComma # y)
              (map (\<lambda>kv. TStr (fst kv) # TColon # tokens_of (snd kv)) ms)) @ TRBrace # ts)
         = parse_tokens
             (complete (JObj (foldl (\<lambda>acc kv. CreateDataProperty acc (fst kv) (snd kv)) acc ms)) st)
             ts"
  using assms
proof (induction ms arbitrary: acc)
  case Nil
  then show ?case by simp
next
  case (Cons kv ms)
  let ?rest = "concat (map (\<lambda>y. TComma # y)
              (map (\<lambda>kv. TStr (fst kv) # TColon # tokens_of (snd kv)) ms)) @ TRBrace # ts"
  have "parse_tokens (AfterMember (CreateDataProperty acc (fst kv) (snd kv)) st) ?rest
         = parse_tokens
             (complete (JObj (foldl (\<lambda>acc kv. CreateDataProperty acc (fst kv) (snd kv))
                (CreateDataProperty acc (fst kv) (snd kv)) ms)) st) ts"
    by (rule Cons.IH) (use Cons.prems in auto)
  moreover have "parse_tokens (AwaitValue (InObj acc (fst kv) # st)) (tokens_of (snd kv) @ ?rest)
         = parse_tokens (complete (snd kv) (InObj acc (fst kv) # st)) ?rest"
    by (rule Cons.prems) simp
  ultimately show ?case by simp
qed

lemma parse_value:
  "JSON_serializable v \<Longrightarrow>
     parse_tokens (AwaitValue st) (tokens_of v @ ts) = parse_tokens (complete v st) ts"
proof (induction v arbitrary: st ts)
  case (JArr vs)
  show ?case
  proof (cases vs)
    case Nil
    then show ?thesis by simp
  next
    case (Cons v vs')
    have ih: "parse_tokens (AwaitValue st) (tokens_of x @ ts) = parse_tokens (complete x st) ts"
      if "x \<in> set vs" for x st ts
      using JArr.IH [OF that] JArr.prems that by simp
    obtain t r where t: "tokens_of v = t # r" "t \<noteq> TRBracket"
      using tokens_of_start by blast
    let ?rest = "concat (map (\<lambda>y. TComma # y) (map tokens_of vs')) @ TRBracket # ts"
    have "parse_tokens (AwaitFirstElem st) (tokens_of v @ ?rest)
            = parse_tokens (AwaitValue (InArr [] # st)) (tokens_of v @ ?rest)"
      using first_element [OF t(2)] t(1) by simp
    also have "\<dots> = parse_tokens (complete v (InArr [] # st)) ?rest"
      by (rule ih) (simp add: Cons)
    also have "\<dots> = parse_tokens (complete (JArr (rev [v] @ vs')) st) ts"
      using parse_elements [of vs' "[v]" st ts] ih Cons by simp
    finally show ?thesis by (simp add: Cons separated_Cons)
  qed
next
  case (JObj ms)
  show ?case
  proof (cases ms)
    case Nil
    then show ?thesis by simp
  next
    case (Cons kv ms')
    have ih: "parse_tokens (AwaitValue st) (tokens_of (snd x) @ ts)
                = parse_tokens (complete (snd x) st) ts"
      if "x \<in> set ms" for x st ts
    proof -
      obtain k v where p: "x = (k, v)" by (cases x)
      with that JObj.prems have "JSON_serializable v" by auto
      with JObj.IH [of x v st ts] that p show ?thesis by simp
    qed
    let ?rest = "concat (map (\<lambda>y. TComma # y)
              (map (\<lambda>kv. TStr (fst kv) # TColon # tokens_of (snd kv)) ms')) @ TRBrace # ts"
    let ?cdp = "\<lambda>acc kv. CreateDataProperty acc (fst kv) (snd kv)"
    have "parse_tokens (AwaitValue (InObj [] (fst kv) # st)) (tokens_of (snd kv) @ ?rest)
            = parse_tokens (complete (snd kv) (InObj [] (fst kv) # st)) ?rest"
      by (rule ih) (simp add: Cons)
    also have "\<dots> = parse_tokens (complete (JObj (foldl ?cdp (?cdp [] kv) ms')) st) ts"
      using parse_members [of ms' "?cdp [] kv" st ts] ih Cons by simp
    also have "foldl ?cdp (?cdp [] kv) ms' = ms"
      using build_object [of ms] JObj.prems Cons by simp
    finally show ?thesis by (simp add: Cons separated_Cons)
  qed
qed simp_all

lemma JSON_round_trip: "JSON_serializable v \<Longrightarrow> JSON_parse (JSON_stringify v) = Inr v"
proof -
  assume s: "JSON_serializable v"
  have "lex (JSON_stringify v @ []) = Some (tokens_of v @ [])"
    by (rule lex_stringify [OF s]) (simp_all add: lex.simps)
  moreover have "parse_tokens (AwaitValue []) (tokens_of v @ []) = parse_tokens (complete v []) []"
    by (rule parse_value [OF s])
  ultimately show ?thesis by (simp add: JSON_parse_def)
qed

lemma envelope_round_trip:
  assumes "JSON_serializable (JObj (payload e))"
  shows "JSON_parse (JSON_stringify (envelope e)) = Inr (envelope e)"
proof -
  have "enumerates [''name'', ''payload'']"
    by (simp add: enumerates_def is_array_index_def is_digit_def)
  with assms have "JSON_serializable (envelope e)"
    by (simp add: envelope_def)
  then show ?thesis by (rule JSON_round_trip)
qed

subsection \<open>Namespace filtering\<close>

text \<open>
  C5. For every change notification whose key does not start with the fixed
  namespace prefix, the receive path performs zero dispatches, performs no store
  read for that key, and logs zero errors: the handler resolves and leaves the
  process, its trace included, exactly as it was, and so does the delivery of the
  notification to any number of registered handlers.
\<close>

theorem namespace_filtering:
  assumes "\<not> startsWith key EVENT_KEY_PREFIX"
  shows "on_change this key w = (Inr (), w)
         \<and> notify hs key w = (replicate (length hs) (Inr ()), w)"
proof -
  have a: "\<And>this. on_change this key w = (Inr (), w)"
    using assms by (simp add: on_change_def on_change_with_def)
  have "notify hs key w = (replicate (length hs) (Inr ()), w)"
    by (induction hs) (simp_all add: a)
  with a show ?thesis by simp
qed

theorem namespace_filtering_witness:
  "\<not> startsWith ''github.auth'' EVENT_KEY_PREFIX
   \<and> on_change 0 ''github.auth'' start = (Inr (), start)
   \<and> notify [0] ''github.auth'' start = ([Inr ()], start)"
proof -
  have h: "\<not> startsWith ''github.auth'' EVENT_KEY_PREFIX"
    by (simp add: EVENT_KEY_PREFIX_def)
  from namespace_filtering [OF h, of 0 start "[0]"] h show ?thesis by simp
qed

subsection \<open>Absent and empty values\<close>

text \<open>
  C10. For every change notification on a key with the namespace prefix, if the
  re-read of that key returns an absent value or the empty string, the receive path
  performs zero dispatches and raises no error: the handler resolves after the
  debug line and the read, the same way in both cases, and although the empty
  string is not valid JSON it is never handed to the parser.
\<close>

theorem empty_value_dropped:
  assumes "startsWith key EVENT_KEY_PREFIX"
    and "\<not> unavailable w"
    and "secrets w key = None \<or> secrets w key = Some []"
  shows "on_change this key w
           = (Inr (), emit [Log Debug (''Event emitted: '' @ key), SecretsGet key] w)
         \<and> dispatches (trace (snd (on_change this key w))) = dispatches (trace w)
         \<and> JSON_parse [] = Inl SyntaxError"
  using assms
  by (auto simp: on_change_def on_change_with_def secrets_get_def JSON_parse_def lex.simps)

theorem empty_value_dropped_witness:
  "on_change 0 ''window.events.X'' start
     = (Inr (), emit [Log Debug ''Event emitted: window.events.X'',
                      SecretsGet ''window.events.X''] start)
   \<and> on_change 0 ''window.events.X'' (start\<lparr>secrets := [''window.events.X'' \<mapsto> []]\<rparr>)
     = (Inr (), emit [Log Debug ''Event emitted: window.events.X'',
                      SecretsGet ''window.events.X'']
                  (start\<lparr>secrets := [''window.events.X'' \<mapsto> []]\<rparr>))"
proof -
  have p: "startsWith ''window.events.X'' EVENT_KEY_PREFIX"
    by (simp add: EVENT_KEY_PREFIX_def)
  have a: "\<not> unavailable start" "secrets start ''window.events.X'' = None
            \<or> secrets start ''window.events.X'' = Some []"
    by (simp_all add: start_def)
  have b: "\<not> unavailable (start\<lparr>secrets := [''window.events.X'' \<mapsto> []]\<rparr>)"
    "secrets (start\<lparr>secrets := [''window.events.X'' \<mapsto> []]\<rparr>) ''window.events.X'' = None
     \<or> secrets (start\<lparr>secrets := [''window.events.X'' \<mapsto> []]\<rparr>) ''window.events.X'' = Some []"
    by (simp_all add: start_def)
  from empty_value_dropped [OF p a, of 0] empty_value_dropped [OF p b, of 0]
  show ?thesis by simp
qed

subsection \<open>Publishing\<close>

text \<open>
  C9. When the underlying store's set operation fails with StoreUnavailable during
  fire, the fire call's promise rejects with that failure and the bus makes no
  automatic retry (one write is attempted, and nothing else changes); when the
  local write succeeds, fire resolves without waiting for any process to observe
  the event: the change event it raised is still pending and nothing was
  dispatched.
\<close>

theorem fire_outcome:
  assumes "''toString'' \<notin> fst ` set (payload e)"
  shows "(unavailable w \<longrightarrow>
            fire e w =
              (Inl StoreUnavailable,
               emit [Log Debug (''Firing event: '' @ name e @ '' with payload: [object Object]''),
                     SecretsStore (EVENT_KEY_PREFIX @ name e) (JSON_stringify (envelope e))] w))
       \<and> (\<not> unavailable w \<longrightarrow>
            fire e w =
              (Inr (),
               emit [Log Debug (''Firing event: '' @ name e @ '' with payload: [object Object]''),
                     SecretsStore (EVENT_KEY_PREFIX @ name e) (JSON_stringify (envelope e))]
                 (w\<lparr>secrets := (secrets w)(EVENT_KEY_PREFIX @ name e
                                               \<mapsto> JSON_stringify (envelope e)),
                    notifications := notifications w @ [EVENT_KEY_PREFIX @ name e]\<rparr>)))
       \<and> writes (trace (snd (fire e w)))
           = writes (trace w) @ [(EVENT_KEY_PREFIX @ name e, JSON_stringify (envelope e))]
       \<and> dispatches (trace (snd (fire e w))) = dispatches (trace w)"
  using assms by (simp add: fire_def secrets_store_def)


theorem fire_outcome_witness:
  "fire \<lparr>name = ''X'', payload = [(''v'', JNum 1 0)]\<rparr> (start\<lparr>unavailable := True\<rparr>)
     = (Inl StoreUnavailable,
        emit [Log Debug ''Firing event: X with payload: [object Object]'',
              SecretsStore ''window.events.X''
                (JSON_stringify (envelope \<lparr>name = ''X'', payload = [(''v'', JNum 1 0)]\<rparr>))]
          (start\<lparr>unavailable := True\<rparr>))
   \<and> fst (fire \<lparr>name = ''X'', payload = [(''v'', JNum 1 0)]\<rparr> start) = Inr ()
   \<and> notifications (snd (fire \<lparr>name = ''X'', payload = [(''v'', JNum 1 0)]\<rparr> start))
       = [''window.events.X'']
   \<and> dispatches (trace (snd (fire \<lparr>name = ''X'', payload = [(''v'', JNum 1 0)]\<rparr> start))) = []"
proof -
  let ?e = "\<lparr>name = ''X'', payload = [(''v'', JNum 1 0)]\<rparr>"
  have h: "''toString'' \<notin> fst ` set (payload ?e)" by simp
  have u: "unavailable (start\<lparr>unavailable := True\<rparr>)" "\<not> unavailable start"
    by (simp_all add: start_def)
  from fire_outcome [OF h, of "start\<lparr>unavailable := True\<rparr>"] fire_outcome [OF h, of start] u
  show ?thesis by (simp add: EVENT_KEY_PREFIX_def start_def)
qed

subsection \<open>One instance, one handler\<close>

lemma getInstance_first:
  assumes "instance_ref w = None" and "getInstance w = (r, w')"
  shows "r = length (objects w) \<and> instance_ref w' = Some r
         \<and> onDidChange w' = onDidChange w @ [r]
         \<and> objects w' = objects w @ [\<lparr>eventEmitter = []\<rparr>]"
  using assms by (auto simp: getInstance_def constructor_def Let_def)

lemma getInstance_again:
  assumes "instance_ref w = Some r"
  shows "getInstance w = (r, w)"
  using assms by (simp add: getInstance_def)

lemma event_frame:
  "onDidChange (event this l w) = onDidChange w
   \<and> instance_ref (event this l w) = instance_ref w
   \<and> secrets (event this l w) = secrets w
   \<and> unavailable (event this l w) = unavailable w
   \<and> notifications (event this l w) = notifications w
   \<and> trace (event this l w) = trace w
   \<and> length (objects (event this l w)) = length (objects w)"
  by (simp add: event_def)

lemma perform_constructed:
  assumes "instance_ref w = Some r" and "perform a w = (rs, w')"
  shows "set rs \<subseteq> {r} \<and> instance_ref w' = Some r \<and> onDidChange w' = onDidChange w"
proof (cases a)
  case Access
  with assms show ?thesis by (auto simp: events_def getInstance_again)
next
  case (Publish e)
  obtain x w1 where f: "fire e w = (x, w1)" by (cases "fire e w")
  from Publish assms f have "rs = [r]" "w' = w1" by (auto simp: events_def getInstance_again)
  with fire_frame [OF f] assms(1) show ?thesis by simp
next
  case (Subscribe l)
  with assms show ?thesis by (auto simp: events_def getInstance_again event_frame)
next
  case Deliver
  obtain x w1 where d: "deliver w = (x, w1)" by (cases "deliver w")
  from Deliver assms d have "rs = []" "w' = w1" by auto
  with deliver_frame [OF d] assms(1) show ?thesis by simp
next
  case (Remote k v)
  with assms show ?thesis by (auto simp: remote_store_def)
next
  case (Outage b)
  with assms show ?thesis by auto
qed

lemma perform_unconstructed:
  assumes "instance_ref w = None" and "perform a w = (rs, w')"
  shows "(rs = [] \<and> instance_ref w' = None \<and> onDidChange w' = onDidChange w)
         \<or> (\<exists>r. rs = [r] \<and> instance_ref w' = Some r \<and> onDidChange w' = onDidChange w @ [r])"
proof (cases a)
  case Access
  obtain r w1 where g: "getInstance w = (r, w1)" by (cases "getInstance w")
  from Access assms g have "rs = [r]" "w' = w1" by (auto simp: events_def)
  with getInstance_first [OF assms(1) g] show ?thesis by simp
next
  case (Publish e)
  obtain r w1 where g: "getInstance w = (r, w1)" by (cases "getInstance w")
  obtain x w2 where f: "fire e w1 = (x, w2)" by (cases "fire e w1")
  from Publish assms g f have "rs = [r]" "w' = w2" by (auto simp: events_def)
  with getInstance_first [OF assms(1) g] fire_frame [OF f] show ?thesis by simp
next
  case (Subscribe l)
  obtain r w1 where g: "getInstance w = (r, w1)" by (cases "getInstance w")
  from Subscribe assms g have "rs = [r]" "w' = event r l w1" by (auto simp: events_def)
  with getInstance_first [OF assms(1) g] show ?thesis by (simp add: event_frame)
next
  case Deliver
  obtain x w1 where d: "deliver w = (x, w1)" by (cases "deliver w")
  from Deliver assms d have "rs = []" "w' = w1" by auto
  with deliver_frame [OF d] assms(1) show ?thesis by simp
next
  case (Remote k v)
  with assms show ?thesis by (auto simp: remote_store_def)
next
  case (Outage b)
  with assms show ?thesis by auto
qed

lemma run_constructed:
  "instance_ref w = Some r \<Longrightarrow> run as w = (rs, w') \<Longrightarrow>
     set rs \<subseteq> {r} \<and> instance_ref w' = Some r \<and> onDidChange w' = onDidChange w"
proof (induction as arbitrary: w rs w')
  case Nil
  then show ?case by simp
next
  case (Cons a as)
  obtain rs1 w1 where p: "perform a w = (rs1, w1)" by (cases "perform a w")
  obtain rs2 w2 where q: "run as w1 = (rs2, w2)" by (cases "run as w1")
  from Cons.prems(2) p q have e: "rs = rs1 @ rs2" "w' = w2" by simp_all
  from perform_constructed [OF Cons.prems(1) p]
  have 1: "set rs1 \<subseteq> {r}" "instance_ref w1 = Some r" "onDidChange w1 = onDidChange w"
    by simp_all
  from Cons.IH [OF 1(2) q] 1 e show ?case by simp
qed

lemma run_unconstructed:
  "instance_ref w = None \<Longrightarrow> run as w = (rs, w') \<Longrightarrow>
     (rs = [] \<and> instance_ref w' = None \<and> onDidChange w' = onDidChange w)
     \<or> (\<exists>r. rs \<noteq> [] \<and> set rs \<subseteq> {r} \<and> instance_ref w' = Some r
              \<and> onDidChange w' = onDidChange w @ [r])"
proof (induction as arbitrary: w rs w')
  case Nil
  then show ?case by simp
next
  case (Cons a as)
  obtain rs1 w1 where p: "perform a w = (rs1, w1)" by (cases "perform a w")
  obtain rs2 w2 where q: "run as w1 = (rs2, w2)" by (cases "run as w1")
  from Cons.prems(2) p q have e: "rs = rs1 @ rs2" "w' = w2" by simp_all
  from perform_unconstructed [OF Cons.prems(1) p]
  consider "rs1 = []" "instance_ref w1 = None" "onDidChange w1 = onDidChange w"
    | r where "rs1 = [r]" "instance_ref w1 = Some r" "onDidChange w1 = onDidChange w @ [r]"
    by auto
  then show ?case
  proof cases
    case 1
    with Cons.IH [OF 1(2) q] e show ?thesis by simp
  next
    case (2 r)
    with run_constructed [OF 2(2) q] e show ?thesis by auto
  qed
qed

text \<open>
  C8. Every call to the bus accessor after the first returns the same Bus instance
  as the first call, and over any sequence of accesses within one process the
  store-level change-notification subscription is registered exactly once. The
  process starts with no instance and no handler registered; whatever it then does
  (accesses, publishing, subscribing, deliveries, writes by other processes,
  outages of the store), every reference returned by \<^verbatim>\<open>events()\<close> equals the first
  one, and from the first access on exactly one handler is registered, the one of
  that instance.
\<close>

theorem singleton_instance:
  assumes "instance_ref w = None" and "onDidChange w = []"
    and "run as w = (rs, w')"
  shows "(\<forall>r \<in> set rs. r = hd rs)
         \<and> (rs = [] \<longrightarrow> onDidChange w' = [] \<and> instance_ref w' = None)
         \<and> (rs \<noteq> [] \<longrightarrow> onDidChange w' = [hd rs] \<and> instance_ref w' = Some (hd rs))"
proof -
  from run_unconstructed [OF assms(1) assms(3)]
  consider "rs = []" "instance_ref w' = None" "onDidChange w' = onDidChange w"
    | r where "rs \<noteq> []" "set rs \<subseteq> {r}" "instance_ref w' = Some r"
        "onDidChange w' = onDidChange w @ [r]"
    by auto
  then show ?thesis
  proof cases
    case 1
    with assms(2) show ?thesis by simp
  next
    case (2 r)
    from 2(1,2) have "hd rs = r" by (cases rs) auto
    with 2 assms(2) show ?thesis by auto
  qed
qed

theorem singleton_instance_witness:
  "fst (run [Access, Subscribe (Listener 7 False), Outage True,
             Publish \<lparr>name = ''X'', payload = []\<rparr>, Deliver, Access] start) = [0, 0, 0, 0]
   \<and> onDidChange (snd (run [Access, Subscribe (Listener 7 False), Outage True,
             Publish \<lparr>name = ''X'', payload = []\<rparr>, Deliver, Access] start)) = [0]
   \<and> instance_ref (snd (run [Access, Subscribe (Listener 7 False), Outage True,
             Publish \<lparr>name = ''X'', payload = []\<rparr>, Deliver, Access] start)) = Some 0"
proof -
  let ?as = "[Access, Subscribe (Listener 7 False), Outage True,
              Publish \<lparr>name = ''X'', payload = []\<rparr>, Deliver, Access]"
  have a: "instance_ref start = None" "onDidChange start = []" by (simp_all add: start_def)
  have b: "run ?as start = (fst (run ?as start), snd (run ?as start))" by simp
  have c: "fst (run ?as start) = [0, 0, 0, 0]"
    by (simp add: start_def events_def getInstance_def constructor_def event_def fire_def
          secrets_store_def deliver_def emit_def Let_def split_beta)
  from singleton_instance [OF a b] c show ?thesis by simp
qed

subsection \<open>The receive path on a stored value\<close>


lemma parse_tokens_error: "parse_tokens s ts = Inl e \<Longrightarrow> e = SyntaxError"
  by (induction s ts rule: parse_tokens.induct) (auto split: pstate.splits option.splits)

lemma JSON_parse_error: "JSON_parse text = Inl e \<Longrightarrow> e = SyntaxError"
  by (auto simp: JSON_parse_def split: option.splits dest: parse_tokens_error)

lemma on_change_with_accepts:
  assumes "startsWith key EVENT_KEY_PREFIX" and "\<not> unavailable w"
    and "secrets w key = Some text" and "text \<noteq> []" and "parse text = Inr v"
  shows "on_change_with parse this key w =
           (Inr (), emit ([Log Debug (''Event emitted: '' @ key), SecretsGet key,
                           Log Debug (''Event payload: '' @ text), Fire v]
                          @ invoke_all (listeners this w) v) w)"
  using assms by (simp add: on_change_with_def secrets_get_def eventEmitter_fire_def)

lemma on_change_with_rejects:
  assumes "startsWith key EVENT_KEY_PREFIX" and "\<not> unavailable w"
    and "secrets w key = Some text" and "text \<noteq> []" and "parse text = Inl err"
  shows "on_change_with parse this key w =
           (Inl err, emit [Log Debug (''Event emitted: '' @ key), SecretsGet key,
                           Log Debug (''Event payload: '' @ text)] w)"
  using assms by (simp add: on_change_with_def secrets_get_def)

lemma on_change_with_empty:
  assumes "startsWith key EVENT_KEY_PREFIX" and "\<not> unavailable w"
    and "secrets w key = Some []"
  shows "on_change_with parse this key w =
           (Inr (), emit [Log Debug (''Event emitted: '' @ key), SecretsGet key] w)"
  using assms by (simp add: on_change_with_def secrets_get_def)


lemma dispatches_invoke_all [simp]: "dispatches (invoke_all ls v) = []"
  by (induction ls) simp_all

lemma called_invoke_all [simp]: "called (invoke_all ls v) = map ident ls"
  by (induction ls) simp_all



lemma fire_resolves:
  assumes "\<not> unavailable w" and "''toString'' \<notin> fst ` set (payload e)"
  shows "fire e w =
     (Inr (),
      emit [Log Debug (''Firing event: '' @ name e @ '' with payload: [object Object]''),
            SecretsStore (EVENT_KEY_PREFIX @ name e) (JSON_stringify (envelope e))]
        (w\<lparr>secrets := (secrets w)(EVENT_KEY_PREFIX @ name e \<mapsto> JSON_stringify (envelope e)),
           notifications := notifications w @ [EVENT_KEY_PREFIX @ name e]\<rparr>))"
  using assms by (simp add: fire_def secrets_store_def emit_def)






subsection \<open>The states a process can reach\<close>








lemma invoke_all_append: "invoke_all (xs @ ys) v = invoke_all xs v @ invoke_all ys v"
  by (induction xs) simp_all


subsection \<open>Single dispatch\<close>




subsection \<open>Coalescing\<close>




subsection \<open>Decoding\<close>

text \<open>
  C3, as the code has it. For every input string read under a key of the
  namespace, envelope decoding is the call of \<^verbatim>\<open>JSON.parse\<close> behind the truthiness
  guard, and nothing else. The empty string is dropped before it is decoded: the
  handler resolves and nothing is dispatched. On a non-empty string for which
  \<^verbatim>\<open>JSON.parse\<close> throws (input that is not valid JSON), the handler rejects with the
  error thrown, a SyntaxError, and nothing is dispatched. On every other string the
  handler resolves and dispatches the value \<^verbatim>\<open>JSON.parse\<close> returns, as it is: input
  missing the name field is not rejected, and an absent payload field is left
  absent. The statement holds whatever \<^verbatim>\<open>JSON.parse\<close> computes.
\<close>

theorem decode_is_parse:
  assumes "startsWith key EVENT_KEY_PREFIX" and "\<not> unavailable w"
    and "secrets w key = Some input"
  shows "on_change_with parse this key w =
           (if input = [] then
              (Inr (), emit [Log Debug (''Event emitted: '' @ key), SecretsGet key] w)
            else
              case parse input of
                Inl err \<Rightarrow>
                  (Inl err, emit [Log Debug (''Event emitted: '' @ key), SecretsGet key,
                                  Log Debug (''Event payload: '' @ input)] w)
              | Inr v \<Rightarrow>
                  (Inr (), emit ([Log Debug (''Event emitted: '' @ key), SecretsGet key,
                                  Log Debug (''Event payload: '' @ input), Fire v]
                                 @ invoke_all (listeners this w) v) w))
       \<and> dispatches (trace (snd (on_change_with parse this key w))) =
           dispatches (trace w)
           @ (if input = [] then []
              else case parse input of Inl err \<Rightarrow> [] | Inr v \<Rightarrow> [v])"
proof (cases "input = []")
  case True
  with on_change_with_empty [where parse = parse and this = this, OF assms(1,2)] assms(3)
  show ?thesis by simp
next
  case False
  show ?thesis
  proof (cases "parse input")
    case (Inl err)
    from on_change_with_rejects [where parse = parse and this = this, OF assms False Inl]
      False Inl
    show ?thesis by simp
  next
    case (Inr v)
    from on_change_with_accepts [where parse = parse and this = this, OF assms False Inr]
      False Inr
    show ?thesis by simp
  qed
qed

theorem decode_is_parse_witness:
  "let key = ''window.events.X'';
       bare = ''{'' @ QuoteJSONString ''name'' @ '':'' @ QuoteJSONString ''X'' @ ''}'';
       holding = (\<lambda>input. (snd (events start))\<lparr>secrets := [key \<mapsto> input]\<rparr>)
   in fst (on_change 0 key (holding [])) = Inr ()
      \<and> dispatches (trace (snd (on_change 0 key (holding [])))) = []
      \<and> fst (on_change 0 key (holding ''not json'')) = Inl SyntaxError
      \<and> dispatches (trace (snd (on_change 0 key (holding ''not json'')))) = []
      \<and> fst (on_change 0 key (holding bare)) = Inr ()
      \<and> dispatches (trace (snd (on_change 0 key (holding bare))))
          = [JObj [(''name'', JStr ''X'')]]"
proof -
  let ?key = "''window.events.X''"
  let ?bare = "''{'' @ QuoteJSONString ''name'' @ '':'' @ QuoteJSONString ''X'' @ ''}''"
  let ?holding = "\<lambda>input. (snd (events start))\<lparr>secrets := [?key \<mapsto> input]\<rparr>"
  have k: "startsWith ?key EVENT_KEY_PREFIX" by code_simp
  have u: "\<not> unavailable (?holding input)" for input
    by (simp add: events_def getInstance_def constructor_def start_def Let_def)
  have s: "secrets (?holding input) ?key = Some input" for input by simp
  have t: "dispatches (trace (?holding input)) = []" for input
    by (simp add: events_def getInstance_def constructor_def start_def Let_def)
  have p: "JSON_parse ''not json'' = Inl SyntaxError"
    "JSON_parse ?bare = Inr (JObj [(''name'', JStr ''X'')])"
    "?bare \<noteq> []"
    by code_simp+
  from decode_is_parse [where parse = JSON_parse and this = 0 and input = "[]", OF k u s]
    decode_is_parse [where parse = JSON_parse and this = 0 and input = "''not json''", OF k u s]
    decode_is_parse [where parse = JSON_parse and this = 0 and input = ?bare, OF k u s]
    t p
  show ?thesis
    unfolding Let_def on_change_def by simp
qed

text \<open>
  C3 as stated fails on the code. The stored text \<^verbatim>\<open>{"payload":{}}\<close> has no name
  field and is decoded and dispatched; the stored text \<^verbatim>\<open>{"name":"X"}\<close> is dispatched
  without a payload field, not with an empty mapping; and the empty string, which
  is not valid JSON, is not rejected: the handler resolves.
\<close>

theorem decode_counterexample:
  "let nameless = ''{'' @ QuoteJSONString ''payload'' @ '':{}}'';
       bare = ''{'' @ QuoteJSONString ''name'' @ '':'' @ QuoteJSONString ''X'' @ ''}'';
       w = snd (events start)
   in fst (deliver (remote_store ''window.events.X'' nameless w)) = [Inr ()]
      \<and> dispatches (trace (snd (deliver (remote_store ''window.events.X'' nameless w))))
          = [JObj [(''payload'', JObj [])]]
      \<and> fst (deliver (remote_store ''window.events.X'' bare w)) = [Inr ()]
      \<and> dispatches (trace (snd (deliver (remote_store ''window.events.X'' bare w))))
          = [JObj [(''name'', JStr ''X'')]]
      \<and> JSON_parse [] = Inl SyntaxError
      \<and> fst (deliver (remote_store ''window.events.X'' [] w)) = [Inr ()]"
  by code_simp

subsection \<open>Malformed values\<close>

text \<open>
  C4, as the code has it. For every change notification on a key that starts with
  the namespace prefix whose current store value is a non-empty string that is not
  valid JSON (\<^verbatim>\<open>JSON.parse\<close> throws on it), the receive path performs zero dispatches
  and its promise rejects with the error \<^verbatim>\<open>JSON.parse\<close> threw, a SyntaxError; the two
  debug lines written before the parse are all that is logged, no decode failure.
  The bus remains usable: when a well-formed value is stored afterwards under a
  key of the namespace, the handler of its change event resolves and dispatches
  the decoded value to the subscribers. (The empty string is not valid JSON either;
  it is dropped without an error, see C10.) The statement holds whatever
  \<^verbatim>\<open>JSON.parse\<close> computes.
\<close>

theorem malformed_value:
  assumes "startsWith key EVENT_KEY_PREFIX" and "\<not> unavailable w"
    and "secrets w key = Some input" and "input \<noteq> []" and "parse input = Inl err"
    and "startsWith key' EVENT_KEY_PREFIX" and "input' \<noteq> []" and "parse input' = Inr v"
  shows "on_change_with parse this key w =
           (Inl err,
            emit [Log Debug (''Event emitted: '' @ key), SecretsGet key,
                  Log Debug (''Event payload: '' @ input)] w)
       \<and> dispatches (trace (snd (on_change_with parse this key w))) = dispatches (trace w)
       \<and> on_change_with parse this key'
           (remote_store key' input' (snd (on_change_with parse this key w))) =
           (Inr (),
            emit ([Log Debug (''Event emitted: '' @ key'), SecretsGet key',
                   Log Debug (''Event payload: '' @ input'), Fire v]
                  @ invoke_all (listeners this w) v)
              (remote_store key' input' (snd (on_change_with parse this key w))))"
proof -
  let ?w1 = "snd (on_change_with parse this key w)"
  let ?w2 = "remote_store key' input' ?w1"
  have r: "on_change_with parse this key w =
           (Inl err,
            emit [Log Debug (''Event emitted: '' @ key), SecretsGet key,
                  Log Debug (''Event payload: '' @ input)] w)"
    by (rule on_change_with_rejects [where parse = parse, OF assms(1-5)])
  have u: "\<not> unavailable ?w2" using assms(2) by (simp add: r remote_store_def)
  have s: "secrets ?w2 key' = Some input'" by (simp add: remote_store_def)
  have l: "listeners this ?w2 = listeners this w"
    by (simp add: r remote_store_def listeners_def)
  from on_change_with_accepts [where parse = parse and this = this, OF assms(6) u s assms(7,8)]
    l r
  show ?thesis by simp
qed

theorem malformed_value_witness:
  "let w = (event 0 (Listener 7 False) (snd (events start)))
             \<lparr>secrets := [''window.events.X'' \<mapsto> ''not json'']\<rparr>;
       w1 = snd (on_change 0 ''window.events.X'' w);
       w2 = snd (on_change 0 ''window.events.Y'' (remote_store ''window.events.Y'' ''[1]'' w1))
   in fst (on_change 0 ''window.events.X'' w) = Inl SyntaxError
      \<and> dispatches (trace w1) = []
      \<and> dispatches (trace w2) = [JArr [JNum 1 0]]
      \<and> calls_of 7 (trace w2) = [JArr [JNum 1 0]]"
proof -
  let ?w = "(event 0 (Listener 7 False) (snd (events start)))
             \<lparr>secrets := [''window.events.X'' \<mapsto> ''not json'']\<rparr>"
  have h: "startsWith ''window.events.X'' EVENT_KEY_PREFIX" "\<not> unavailable ?w"
    "secrets ?w ''window.events.X'' = Some ''not json''" "''not json'' \<noteq> []"
    "JSON_parse ''not json'' = Inl SyntaxError"
    "startsWith ''window.events.Y'' EVENT_KEY_PREFIX" "''[1]'' \<noteq> []"
    "JSON_parse ''[1]'' = Inr (JArr [JNum 1 0])"
    by code_simp+
  let ?w1 = "snd (on_change_with JSON_parse 0 ''window.events.X'' ?w)"
  let ?w2 = "snd (on_change_with JSON_parse 0 ''window.events.Y''
                   (remote_store ''window.events.Y'' ''[1]'' ?w1))"
  have c: "dispatches (trace ?w) = []" "calls_of 7 (trace ?w) = []"
    "listeners 0 ?w = [Listener 7 False]"
    by code_simp+
  note m = malformed_value [where parse = JSON_parse and this = 0, OF h]
  from m have r: "fst (on_change_with JSON_parse 0 ''window.events.X'' ?w) = Inl SyntaxError"
    and w1: "?w1 = emit [Log Debug (''Event emitted: '' @ ''window.events.X''),
                         SecretsGet ''window.events.X'',
                         Log Debug (''Event payload: '' @ ''not json'')] ?w"
    by simp_all
  from m c(1) have d1: "dispatches (trace ?w1) = []" by simp
  from w1 c(2) have c1: "calls_of 7 (trace ?w1) = []" by simp
  from conjunct2 [OF conjunct2 [OF m]]
  have "trace ?w2 = trace (remote_store ''window.events.Y'' ''[1]'' ?w1)
          @ [Log Debug (''Event emitted: '' @ ''window.events.Y''),
             SecretsGet ''window.events.Y'',
             Log Debug (''Event payload: '' @ ''[1]''), Fire (JArr [JNum 1 0])]
          @ invoke_all (listeners 0 ?w) (JArr [JNum 1 0])"
    by (simp only: snd_conv emit_fields append_assoc)
  then have "trace ?w2 = trace ?w1
          @ [Log Debug (''Event emitted: '' @ ''window.events.Y''),
             SecretsGet ''window.events.Y'',
             Log Debug (''Event payload: '' @ ''[1]''), Fire (JArr [JNum 1 0])]
          @ invoke_all [Listener 7 False] (JArr [JNum 1 0])"
    by (simp only: c(3) remote_store_def) simp
  with d1 c1 have "dispatches (trace ?w2) = [JArr [JNum 1 0]]"
    "calls_of 7 (trace ?w2) = [JArr [JNum 1 0]]"
    by simp_all
  with r d1 show ?thesis
    unfolding Let_def on_change_def by simp
qed

text \<open>
  C4 as stated fails on the code. Another process stores \<^verbatim>\<open>not json\<close> under a key
  of the namespace and the change event is delivered: the handler's promise
  rejects with the SyntaxError, and the process has logged the creation of the bus
  and the two debug lines, no decode failure.
\<close>

theorem malformed_value_counterexample:
  "let w = snd (deliver (remote_store ''window.events.X'' ''not json'' (snd (events start))))
   in fst (deliver (remote_store ''window.events.X'' ''not json'' (snd (events start))))
        = [Inl SyntaxError]
      \<and> trace w = [Log Info ''EventsSingleton instance created'',
                   Log Debug ''Event emitted: window.events.X'',
                   SecretsGet ''window.events.X'',
                   Log Debug ''Event payload: not json'']"
  by code_simp

subsection \<open>Round trip\<close>

text \<open>
  C1. For every event name N and JSON-serializable payload P, after
  fire({name:N, payload:P}) resolves, a direct read of the store key formed by the
  fixed namespace prefix concatenated with N yields a string that decodes to exactly
  the envelope {name:N, payload:P}.
\<close>

theorem fire_round_trip:
  assumes "JSON_serializable (JObj (payload e))" and "fire e w = (Inr (), w')"
  shows "\<exists>text. fst (secrets_get (EVENT_KEY_PREFIX @ name e) w') = Inr (Some text)
               \<and> JSON_parse text = Inr (envelope e)"
proof -
  from assms(2) have a: "''toString'' \<notin> fst ` set (payload e)" "\<not> unavailable w"
    by (auto simp: fire_def secrets_store_def split: if_splits)
  from fire_resolves [OF a(2,1)] assms(2)
  have "unavailable w' = False"
    "secrets w' (EVENT_KEY_PREFIX @ name e) = Some (JSON_stringify (envelope e))"
    using a(2) by auto
  then have "fst (secrets_get (EVENT_KEY_PREFIX @ name e) w')
               = Inr (Some (JSON_stringify (envelope e)))"
    by (simp add: secrets_get_def)
  with envelope_round_trip [OF assms(1)] show ?thesis by simp
qed

theorem fire_round_trip_witness:
  "let e = \<lparr>name = ''modelProvidersUpdated'',
             payload = [(''ids'', JArr [JStr ''a'', JStr ''b''])]\<rparr>;
       text = ''{'' @ QuoteJSONString ''name'' @ '':'' @ QuoteJSONString ''modelProvidersUpdated''
              @ '','' @ QuoteJSONString ''payload'' @ '':{'' @ QuoteJSONString ''ids'' @ '':[''
              @ QuoteJSONString ''a'' @ '','' @ QuoteJSONString ''b'' @ '']}}''
   in fst (fire e start) = Inr ()
      \<and> fst (secrets_get ''window.events.modelProvidersUpdated'' (snd (fire e start)))
          = Inr (Some text)
      \<and> JSON_parse text = Inr (envelope e)"
proof -
  let ?e = "\<lparr>name = ''modelProvidersUpdated'',
             payload = [(''ids'', JArr [JStr ''a'', JStr ''b''])]\<rparr>"
  let ?text = "''{'' @ QuoteJSONString ''name'' @ '':'' @ QuoteJSONString ''modelProvidersUpdated''
              @ '','' @ QuoteJSONString ''payload'' @ '':{'' @ QuoteJSONString ''ids'' @ '':[''
              @ QuoteJSONString ''a'' @ '','' @ QuoteJSONString ''b'' @ '']}}''"
  have l: "JSON_serializable (JObj (payload ?e))" by code_simp
  have r: "fst (fire ?e start) = Inr ()" by code_simp
  then have f: "fire ?e start = (Inr (), snd (fire ?e start))"
    by (metis prod.collapse)
  have g: "fst (secrets_get ''window.events.modelProvidersUpdated'' (snd (fire ?e start)))
             = Inr (Some ?text)"
    by code_simp
  from fire_round_trip [OF l f] g r show ?thesis
    by (auto simp: Let_def EVENT_KEY_PREFIX_def)
qed

subsection \<open>Subscriber isolation\<close>

lemma invoke_all_calls: "l \<in> set ls \<Longrightarrow> Call (ident l) v \<in> set (invoke_all ls v)"
  by (induction ls) auto

lemma invoke_all_failures:
  "l \<in> set ls \<Longrightarrow> throws l \<Longrightarrow> ListenerFailure (ident l) \<in> set (invoke_all ls v)"
  by (induction ls) auto

text \<open>
  C7. During dispatch of one decoded envelope, subscribers are invoked in
  registration order, and if any subscriber callback throws, the error is logged
  and every remaining subscriber is still invoked; one failing subscriber never
  prevents an independently-registered subscriber from observing the event.
\<close>

theorem subscriber_isolation:
  "trace (eventEmitter_fire this v w) = trace w @ Fire v # invoke_all (listeners this w) v
   \<and> called (invoke_all (listeners this w) v) = map ident (listeners this w)
   \<and> (\<forall>l \<in> set (listeners this w). Call (ident l) v \<in> set (invoke_all (listeners this w) v))
   \<and> (\<forall>l \<in> set (listeners this w).
         throws l \<longrightarrow> ListenerFailure (ident l) \<in> set (invoke_all (listeners this w) v))"
  by (simp add: eventEmitter_fire_def invoke_all_calls invoke_all_failures)

theorem subscriber_isolation_witness:
  "let w = event 0 (Listener 2 False) (event 0 (Listener 1 True) (snd (events start)))
   in trace (eventEmitter_fire 0 JNull w)
        = [Log Info ''EventsSingleton instance created'',
           Fire JNull, Call 1 JNull, ListenerFailure 1, Call 2 JNull]"
proof -
  let ?w = "event 0 (Listener 2 False) (event 0 (Listener 1 True) (snd (events start)))"
  have a: "trace ?w = [Log Info ''EventsSingleton instance created'']"
    "invoke_all (listeners 0 ?w) JNull = [Call 1 JNull, ListenerFailure 1, Call 2 JNull]"
    by code_simp+
  from subscriber_isolation [of 0 JNull ?w] a show ?thesis by (simp add: Let_def)
qed

section \<open>Further properties of the receive and publish paths\<close>

text \<open>
  X1. A payload with an own property named \<^verbatim>\<open>toString\<close> cannot be published: the
  debug line of \<^verbatim>\<open>fire\<close> converts the payload to a string, which raises a TypeError
  before anything is logged or written, so the promise of \<^verbatim>\<open>fire\<close> rejects and the
  process is unchanged.
\<close>

theorem fire_rejects_toString_payload:
  assumes "''toString'' \<in> fst ` set (payload e)"
  shows "fire e w = (Inl TypeError, w)"
  using assms by (simp add: fire_def)

theorem fire_rejects_toString_payload_witness:
  "fire \<lparr>name = ''X'', payload = [(''toString'', JNum 1 0)]\<rparr> start = (Inl TypeError, start)"
proof -
  have "''toString'' \<in> fst ` set (payload \<lparr>name = ''X'', payload = [(''toString'', JNum 1 0)]\<rparr>)"
    by simp
  from fire_rejects_toString_payload [OF this] show ?thesis .
qed

text \<open>
  X2. When the store cannot be read, the handler of a change event on a key of the
  namespace rejects with StoreUnavailable after its first debug line; nothing is
  dispatched.
\<close>

theorem unreadable_store_rejects:
  assumes "startsWith key EVENT_KEY_PREFIX" and "unavailable w"
  shows "on_change this key w
           = (Inl StoreUnavailable,
              emit [Log Debug (''Event emitted: '' @ key), SecretsGet key] w)"
  using assms by (simp add: on_change_def on_change_with_def secrets_get_def)

theorem unreadable_store_rejects_witness:
  "on_change 0 ''window.events.X'' (start\<lparr>unavailable := True\<rparr>)
     = (Inl StoreUnavailable,
        emit [Log Debug ''Event emitted: window.events.X'', SecretsGet ''window.events.X'']
          (start\<lparr>unavailable := True\<rparr>))"
proof -
  have h: "startsWith ''window.events.X'' EVENT_KEY_PREFIX"
    "unavailable (start\<lparr>unavailable := True\<rparr>)"
    by (simp_all add: EVENT_KEY_PREFIX_def)
  from unreadable_store_rejects [OF h, of 0] show ?thesis by simp
qed

end
